theory Spec2Isabelle
  imports Complex_Main
begin

section \<open>Array elements\<close>

text \<open>
  The arrays of \<^verbatim>\<open>inception_score\<close> hold float32 numbers. An element is modelled
  as a real number or one of the three special values of IEEE arithmetic. The operations
  give the special values exactly as NumPy does (\<^verbatim>\<open>log(0) = -inf\<close>,
  \<^verbatim>\<open>inf - inf = nan\<close>, \<^verbatim>\<open>0 * inf = nan\<close>, \<^verbatim>\<open>0 / 0 = nan\<close>);
  on finite values they are the exact real operations: rounding to float32, overflow and
  underflow are not modelled, and neither is the sign of zero.
\<close>

datatype fl = Fin real | PInf | NInf | NaN

fun is_neg :: "fl \<Rightarrow> bool" where
  "is_neg (Fin x) = (x < 0)"
| "is_neg PInf = False"
| "is_neg NInf = True"
| "is_neg NaN = False"

fun fneg :: "fl \<Rightarrow> fl" where
  "fneg (Fin x) = Fin (- x)"
| "fneg PInf = NInf"
| "fneg NInf = PInf"
| "fneg NaN = NaN"

fun fadd :: "fl \<Rightarrow> fl \<Rightarrow> fl" where
  "fadd NaN b = NaN"
| "fadd a NaN = NaN"
| "fadd (Fin x) (Fin y) = Fin (x + y)"
| "fadd PInf NInf = NaN"
| "fadd NInf PInf = NaN"
| "fadd PInf b = PInf"
| "fadd a PInf = PInf"
| "fadd NInf b = NInf"
| "fadd a NInf = NInf"

definition fsub :: "fl \<Rightarrow> fl \<Rightarrow> fl" where
  "fsub a b = fadd a (fneg b)"

fun fmul :: "fl \<Rightarrow> fl \<Rightarrow> fl" where
  "fmul NaN b = NaN"
| "fmul a NaN = NaN"
| "fmul (Fin x) (Fin y) = Fin (x * y)"
| "fmul a b =
     (if a = Fin 0 \<or> b = Fin 0 then NaN
      else if is_neg a = is_neg b then PInf else NInf)"

fun fdiv :: "fl \<Rightarrow> fl \<Rightarrow> fl" where
  "fdiv NaN b = NaN"
| "fdiv a NaN = NaN"
| "fdiv (Fin x) (Fin y) =
     (if y = 0 then (if x = 0 then NaN else if x < 0 then NInf else PInf)
      else Fin (x / y))"
| "fdiv (Fin x) b = Fin 0"
| "fdiv a (Fin y) = (if is_neg a = (y < 0) then PInf else NInf)"
| "fdiv a b = NaN"

fun flog :: "fl \<Rightarrow> fl" where
  "flog (Fin x) = (if 0 < x then Fin (ln x) else if x = 0 then NInf else NaN)"
| "flog PInf = PInf"
| "flog NInf = NaN"
| "flog NaN = NaN"

fun fexp :: "fl \<Rightarrow> fl" where
  "fexp (Fin x) = Fin (exp x)"
| "fexp PInf = PInf"
| "fexp NInf = Fin 0"
| "fexp NaN = NaN"

fun fsqrt :: "fl \<Rightarrow> fl" where
  "fsqrt (Fin x) = (if 0 \<le> x then Fin (sqrt x) else NaN)"
| "fsqrt PInf = PInf"
| "fsqrt NInf = NaN"
| "fsqrt NaN = NaN"

section \<open>Vectors and matrices\<close>

text \<open>
  A one-dimensional array is a list, a two-dimensional array is the list of its rows.
  The reductions are NumPy's: the sum of no element is 0, the mean divides the sum by
  the number of elements (so the mean of no element is \<^verbatim>\<open>0 / 0 = nan\<close>, with a
  warning and no error), and the standard deviation is the population one,
  \<^verbatim>\<open>sqrt(mean((x - mean(x)) ** 2))\<close>. NumPy adds in pairs; without rounding the
  order of the additions does not change the sum.
\<close>

type_synonym matrix = "fl list list"

definition fsum :: "fl list \<Rightarrow> fl" where
  "fsum xs = foldr fadd xs (Fin 0)"

definition fmean :: "fl list \<Rightarrow> fl" where
  "fmean xs = fdiv (fsum xs) (Fin (real (length xs)))"

definition fstd :: "fl list \<Rightarrow> fl" where
  "fstd xs =
     (let m = fmean xs;
          d = map (\<lambda>x. fsub x m) xs
      in fsqrt (fmean (map (\<lambda>x. fmul x x) d)))"

text \<open>\<^verbatim>\<open>xp.log(a)\<close> on a matrix.\<close>

definition mlog :: "matrix \<Rightarrow> matrix" where
  "mlog a = map (map flog) a"

text \<open>
  \<^verbatim>\<open>xp.mean(a, 0)\<close>, the mean of every column, for a matrix of \<open>c\<close> columns. The
  number of columns is an argument because a list of no rows does not carry it; a
  \<open>0 \<times> c\<close> matrix gives \<open>c\<close> times \<^verbatim>\<open>nan\<close>.
\<close>

definition mean_axis0 :: "nat \<Rightarrow> matrix \<Rightarrow> fl list" where
  "mean_axis0 c a = map (\<lambda>j. fmean (map (\<lambda>row. row ! j) a)) [0..<c]"

text \<open>\<^verbatim>\<open>xp.expand_dims(v, 0)\<close>: the vector as a matrix of one row.\<close>

definition expand_dims0 :: "fl list \<Rightarrow> matrix" where
  "expand_dims0 v = [v]"

text \<open>
  Elementwise operations of a \<open>k \<times> c\<close> matrix with a \<open>1 \<times> c\<close> matrix: NumPy
  broadcasts the single row to each of the \<open>k\<close> rows.
\<close>

definition msub_bcast :: "matrix \<Rightarrow> matrix \<Rightarrow> matrix" where
  "msub_bcast a b = map (\<lambda>row. map2 fsub row (hd b)) a"

text \<open>Elementwise product of two matrices of the same shape.\<close>

definition mmul :: "matrix \<Rightarrow> matrix \<Rightarrow> matrix" where
  "mmul a b = map2 (map2 fmul) a b"

text \<open>\<^verbatim>\<open>xp.sum(a, 1)\<close>: the sum of every row.\<close>

definition sum_axis1 :: "matrix \<Rightarrow> fl list" where
  "sum_axis1 a = map fsum a"

section \<open>Python slices\<close>

text \<open>
  \<^verbatim>\<open>a[start:stop]\<close> on a sequence of length \<open>len\<close>: a negative bound counts from
  the end, both bounds are clamped to \<open>[0, len]\<close>, and the slice is empty when the
  bounds cross. The result is the pair of the first row and the row after the last.
\<close>

definition norm_index :: "nat \<Rightarrow> int \<Rightarrow> nat" where
  "norm_index len k = (if k < 0 then nat (max 0 (int len + k)) else min (nat k) len)"

definition slice_bounds :: "nat \<Rightarrow> int \<Rightarrow> int \<Rightarrow> nat \<times> nat" where
  "slice_bounds len start stop =
     (let lo = norm_index len start; hi = norm_index len stop in (lo, max lo hi))"

definition py_slice :: "'a list \<Rightarrow> int \<Rightarrow> int \<Rightarrow> 'a list" where
  "py_slice xs start stop =
     (let (lo, hi) = slice_bounds (length xs) start stop in take (hi - lo) (drop lo xs))"

text \<open>\<^verbatim>\<open>range(k)\<close>: empty when \<open>k \<le> 0\<close>.\<close>

definition py_range :: "int \<Rightarrow> int list" where
  "py_range k = map int [0..<nat k]"

section \<open>Errors\<close>

datatype error = ZeroDivisionError | ValueError | ClassifierError nat

section \<open>Split Statistics Aggregator\<close>

text \<open>The classifier's number of classes, as \<^verbatim>\<open>inception_score\<close> has it.\<close>

definition n_classes :: nat where
  "n_classes = 1008"

text \<open>
  The body of the second loop for split \<open>i\<close>:
  \<^verbatim>\<open>
  part = ys[(i * n // splits):((i + 1) * n // splits), :]
  kl = part * (xp.log(part) - xp.log(xp.expand_dims(xp.mean(part, 0), 0)))
  kl = xp.mean(xp.sum(kl, 1))
  scores[i] = xp.exp(kl)
  \<close>
  Python's \<^verbatim>\<open>//\<close> is floor division, as \<open>div\<close> on \<open>int\<close> is.
\<close>

definition split_range :: "int \<Rightarrow> int \<Rightarrow> int \<Rightarrow> int \<times> int" where
  "split_range n splits i = (i * n div splits, (i + 1) * n div splits)"

definition part_score :: "matrix \<Rightarrow> fl" where
  "part_score part =
     (let kl = mmul part
                (msub_bcast (mlog part)
                   (mlog (expand_dims0 (mean_axis0 n_classes part))));
          kl' = fmean (sum_axis1 kl)
      in fexp kl')"

definition split_part :: "matrix \<Rightarrow> int \<Rightarrow> int \<Rightarrow> int \<Rightarrow> matrix" where
  "split_part ys n splits i =
     (let (a, b) = split_range n splits i in py_slice ys a b)"

definition split_score :: "matrix \<Rightarrow> int \<Rightarrow> int \<Rightarrow> int \<Rightarrow> fl" where
  "split_score ys n splits i = part_score (split_part ys n splits i)"

text \<open>
  \<^verbatim>\<open>xp.empty(shape)\<close> allocates without initialising: the elements are whatever the
  memory held. The model takes these contents as an argument. A negative dimension
  raises \<^verbatim>\<open>ValueError\<close>.
\<close>

definition empty1 :: "(nat \<Rightarrow> fl) \<Rightarrow> int \<Rightarrow> error + fl list" where
  "empty1 g k = (if k < 0 then Inl ValueError else Inr (map g [0..<nat k]))"

definition empty2 :: "(nat \<Rightarrow> nat \<Rightarrow> fl) \<Rightarrow> nat \<Rightarrow> nat \<Rightarrow> matrix" where
  "empty2 g k c = map (\<lambda>r. map (g r) [0..<c]) [0..<k]"

text \<open>
  The second loop and the return statement: \<open>scores\<close> is allocated uninitialised
  (\<open>sg\<close> is what it holds), entry \<open>i\<close> is assigned in iteration \<open>i\<close>, and the result
  is \<^verbatim>\<open>(xp.mean(scores), xp.std(scores))\<close>.
\<close>

definition fill_scores :: "matrix \<Rightarrow> int \<Rightarrow> int \<Rightarrow> fl list \<Rightarrow> fl list" where
  "fill_scores ys n splits scores0 =
     foldl (\<lambda>scores i. scores[nat i := split_score ys n splits i]) scores0 (py_range splits)"

definition aggregate :: "(nat \<Rightarrow> fl) \<Rightarrow> matrix \<Rightarrow> int \<Rightarrow> int \<Rightarrow> error + fl \<times> fl" where
  "aggregate sg ys n splits =
     (case empty1 sg splits of
        Inl e \<Rightarrow> Inl e
      | Inr scores0 \<Rightarrow>
          (let scores = fill_scores ys n splits scores0
           in Inr (fmean scores, fstd scores)))"

text \<open>
  The rows that \<^verbatim>\<open>ys[a:b]\<close> selects from a matrix of \<open>len\<close> rows, and the rows
  of split \<open>i\<close>.
\<close>

definition range_rows :: "nat \<Rightarrow> int \<times> int \<Rightarrow> nat list" where
  "range_rows len rng = (let (lo, hi) = slice_bounds len (fst rng) (snd rng) in [lo..<hi])"

definition split_rows :: "int \<Rightarrow> int \<Rightarrow> int \<Rightarrow> nat list" where
  "split_rows n splits i = range_rows (nat n) (split_range n splits i)"

section \<open>Image arrays, views and the heap\<close>

text \<open>
  \<^verbatim>\<open>ims\<close> is an array of shape \<open>(n, c, w, h)\<close>: \<open>n\<close> images, each a list of
  \<open>c * w * h\<close> pixels. Arrays live in a heap, addressed by their position, because
  the code passes views of \<^verbatim>\<open>ims\<close> on: a basic slice \<^verbatim>\<open>ims[a:b]\<close> shares the
  memory of \<^verbatim>\<open>ims\<close>, \<^verbatim>\<open>xp.asarray\<close> returns its argument as it is when it
  already is an array of the backend (NumPy) and copies it to the device otherwise
  (CuPy), and \<^verbatim>\<open>Variable(a)\<close> wraps the array without copying. A view is the address
  of its array and a range of rows.
\<close>

type_synonym image = "fl list"

record ndarray =
  chans :: nat
  dim2 :: nat
  dim3 :: nat
  imgs :: "image list"

record var =
  v_base :: nat
  v_lo :: nat
  v_hi :: nat

datatype backend = NumPy | CuPy

definition deref :: "ndarray list \<Rightarrow> var \<Rightarrow> ndarray" where
  "deref hp v =
     (hp ! v_base v)\<lparr>imgs := take (v_hi v - v_lo v) (drop (v_lo v) (imgs (hp ! v_base v)))\<rparr>"

definition alloc :: "ndarray list \<Rightarrow> ndarray \<Rightarrow> ndarray list \<times> var" where
  "alloc hp a = (hp @ [a], \<lparr>v_base = length hp, v_lo = 0, v_hi = length (imgs a)\<rparr>)"

definition getslice :: "ndarray list \<Rightarrow> nat \<Rightarrow> int \<Rightarrow> int \<Rightarrow> var" where
  "getslice hp a start stop =
     (let (l, h) = slice_bounds (length (imgs (hp ! a))) start stop
      in \<lparr>v_base = a, v_lo = l, v_hi = h\<rparr>)"

definition asarray :: "backend \<Rightarrow> ndarray list \<Rightarrow> var \<Rightarrow> ndarray list \<times> var" where
  "asarray b hp v = (case b of NumPy \<Rightarrow> (hp, v) | CuPy \<Rightarrow> alloc hp (deref hp v))"

text \<open>
  \<^verbatim>\<open>F.resize_images(x, (299, 299))\<close> returns a new variable. The interpolation
  itself is Chainer's (bilinear, as the source's comment says) and is an argument of the
  model.
\<close>

definition resize_images ::
  "(ndarray \<Rightarrow> nat \<times> nat \<Rightarrow> ndarray) \<Rightarrow> ndarray list \<Rightarrow> var \<Rightarrow> nat \<times> nat
     \<Rightarrow> ndarray list \<times> var" where
  "resize_images bilinear hp v shape = alloc hp (bilinear (deref hp v) shape)"

section \<open>Configuration, classifier and invocation record\<close>

text \<open>
  \<^verbatim>\<open>chainer.config\<close> gives every flag its value in force. The classifier reads the
  configuration and the heap, and returns its output or raises; it may write to the heap.
  The world is the heap, the configuration and, to state what the classifier was called
  with, a record of the invocations made so far: each with the configuration in force,
  the batch's bounds, the images passed and what came back. The code keeps no such
  record; nothing in the model reads it.
\<close>

type_synonym config = "string \<Rightarrow> bool"

type_synonym classifier =
  "config \<Rightarrow> ndarray list \<Rightarrow> var \<Rightarrow> (error + matrix) \<times> ndarray list"

record model =
  xp :: backend
  forward :: classifier

record call =
  call_config :: config
  call_range :: "int \<times> int"
  call_input :: ndarray
  call_output :: "error + matrix"

record world =
  heap :: "ndarray list"
  config :: config
  calls :: "call list"

text \<open>
  \<^verbatim>\<open>with chainer.using_config(name, value): body\<close> sets the flag, runs the body and
  puts the old value back in a \<^verbatim>\<open>finally\<close> clause, so also when the body raises
  (an error is a value of the body here).
\<close>

definition using_config ::
  "string \<Rightarrow> bool \<Rightarrow> (world \<Rightarrow> 'a \<times> world) \<Rightarrow> world \<Rightarrow> 'a \<times> world" where
  "using_config name val body w =
     (let old_value = config w name;
          (r, w') = body (w\<lparr>config := (config w)(name := val)\<rparr>)
      in (r, w'\<lparr>config := (config w')(name := old_value)\<rparr>))"

definition call_model :: "model \<Rightarrow> int \<times> int \<Rightarrow> var \<Rightarrow> world \<Rightarrow> (error + matrix) \<times> world" where
  "call_model m rng v w =
     (let (r, hp') = forward m (config w) (heap w) v
      in (r, w\<lparr>heap := hp',
                calls := calls w @
                  [\<lparr>call_config = config w, call_range = rng,
                    call_input = deref (heap w) v, call_output = r\<rparr>]\<rparr>))"

section \<open>Batched Inference Driver\<close>

text \<open>
  \<^verbatim>\<open>ys[start:stop] = y\<close> for a matrix \<open>ys\<close> of \<open>c\<close> columns and a two-dimensional
  \<open>y\<close>. NumPy broadcasts the value to the shape of the slice: a dimension of \<open>y\<close>
  fits when it equals the slice's or is 1, and a dimension of 1 is repeated. Any other
  shape raises \<^verbatim>\<open>ValueError\<close>.
\<close>

definition broadcast_to :: "nat \<Rightarrow> nat \<Rightarrow> matrix \<Rightarrow> matrix option" where
  "broadcast_to k c y =
     (if (length y = k \<or> length y = 1)
         \<and> (list_all (\<lambda>row. length row = c) y \<or> list_all (\<lambda>row. length row = 1) y)
      then Some (map (\<lambda>j. let row = y ! (if length y = k then j else 0)
                          in if length row = c then row else replicate c (hd row))
                   [0..<k])
      else None)"

definition setitem_rows :: "nat \<Rightarrow> matrix \<Rightarrow> int \<Rightarrow> int \<Rightarrow> matrix \<Rightarrow> error + matrix" where
  "setitem_rows c ys start stop y =
     (let (l, h) = slice_bounds (length ys) start stop
      in case broadcast_to (h - l) c y of
           None \<Rightarrow> Inl ValueError
         | Some rows \<Rightarrow> Inr (take l ys @ rows @ drop h ys))"

text \<open>
  \<^verbatim>\<open>int(math.ceil(float(n) / float(batch_size)))\<close>, with
  \<^verbatim>\<open>ZeroDivisionError\<close> for a batch size of 0. The quotient is taken exactly: an
  array length is below \<open>2\<^sup>5\<^sup>3\<close>, where the quotient of the doubles has the ceiling
  of the exact quotient.
\<close>

definition n_batches :: "int \<Rightarrow> int \<Rightarrow> error + int" where
  "n_batches n batch_size =
     (if batch_size = 0 then Inl ZeroDivisionError
      else Inr \<lceil>(of_int n :: real) / of_int batch_size\<rceil>)"

text \<open>
  The body of the first loop, for batch \<open>i\<close>:
  \<^verbatim>\<open>
  batch_start = (i * batch_size)
  batch_end = min((i + 1) * batch_size, n)
  ims_batch = ims[batch_start:batch_end]
  ims_batch = xp.asarray(ims_batch)
  ims_batch = Variable(ims_batch)
  if (w, h) != (299, 299):
      ims_batch = F.resize_images(ims_batch, (299, 299))
  with chainer.using_config('train', False), chainer.using_config('enable_backprop', False):
      y = model(ims_batch)
  ys[batch_start:batch_end] = y.data
  \<close>
  The progress messages are not modelled.
\<close>

definition batch_bounds :: "int \<Rightarrow> int \<Rightarrow> int \<Rightarrow> int \<times> int" where
  "batch_bounds n batch_size i = (i * batch_size, min ((i + 1) * batch_size) n)"

definition prepare_batch ::
  "backend \<Rightarrow> (ndarray \<Rightarrow> nat \<times> nat \<Rightarrow> ndarray) \<Rightarrow> nat \<Rightarrow> nat \<Rightarrow> nat \<Rightarrow> int \<times> int
     \<Rightarrow> ndarray list \<Rightarrow> ndarray list \<times> var" where
  "prepare_batch b bilinear ims w h rng hp =
     (let v0 = getslice hp ims (fst rng) (snd rng);
          (hp1, v1) = asarray b hp v0
      in if (w, h) \<noteq> (299, 299) then resize_images bilinear hp1 v1 (299, 299)
         else (hp1, v1))"

definition batch_body ::
  "model \<Rightarrow> (ndarray \<Rightarrow> nat \<times> nat \<Rightarrow> ndarray) \<Rightarrow> nat \<Rightarrow> int \<Rightarrow> nat \<Rightarrow> nat \<Rightarrow> int
     \<Rightarrow> int \<Rightarrow> matrix \<Rightarrow> world \<Rightarrow> (error + matrix) \<times> world" where
  "batch_body m bilinear ims n w h batch_size i ys wld =
     (let rng = batch_bounds n batch_size i;
          (hp, ims_batch) = prepare_batch (xp m) bilinear ims w h rng (heap wld);
          (r, wld') = using_config ''train'' False
                        (using_config ''enable_backprop'' False (call_model m rng ims_batch))
                        (wld\<lparr>heap := hp\<rparr>)
      in case r of
           Inl e \<Rightarrow> (Inl e, wld')
         | Inr y \<Rightarrow> (setitem_rows n_classes ys (fst rng) (snd rng) y, wld'))"

text \<open>A \<^verbatim>\<open>for\<close> loop over the batches: an error ends it.\<close>

fun batch_loop ::
  "(int \<Rightarrow> matrix \<Rightarrow> world \<Rightarrow> (error + matrix) \<times> world) \<Rightarrow> int list \<Rightarrow> matrix \<Rightarrow> world
     \<Rightarrow> (error + matrix) \<times> world" where
  "batch_loop body [] ys wld = (Inr ys, wld)"
| "batch_loop body (i # js) ys wld =
     (case body i ys wld of
        (Inl e, wld') \<Rightarrow> (Inl e, wld')
      | (Inr ys', wld') \<Rightarrow> batch_loop body js ys' wld')"

text \<open>
  The first half of \<^verbatim>\<open>inception_score\<close>: the shape of \<^verbatim>\<open>ims\<close>, the number of
  batches, the uninitialised \<open>n \<times> 1008\<close> container (\<open>yg\<close> is what it holds) and the
  loop over the batches.
\<close>

definition predictions ::
  "model \<Rightarrow> (ndarray \<Rightarrow> nat \<times> nat \<Rightarrow> ndarray) \<Rightarrow> nat \<Rightarrow> int \<Rightarrow> (nat \<Rightarrow> nat \<Rightarrow> fl)
     \<Rightarrow> world \<Rightarrow> (error + matrix) \<times> world" where
  "predictions m bilinear ims batch_size yg wld =
     (let a = heap wld ! ims;
          n = int (length (imgs a)); w = dim2 a; h = dim3 a
      in case n_batches n batch_size of
           Inl e \<Rightarrow> (Inl e, wld)
         | Inr nb \<Rightarrow>
             batch_loop (batch_body m bilinear ims n w h batch_size) (py_range nb)
               (empty2 yg (nat n) n_classes) wld)"

section \<open>The whole function\<close>

definition inception_score ::
  "model \<Rightarrow> (ndarray \<Rightarrow> nat \<times> nat \<Rightarrow> ndarray) \<Rightarrow> nat \<Rightarrow> int \<Rightarrow> int
     \<Rightarrow> (nat \<Rightarrow> nat \<Rightarrow> fl) \<Rightarrow> (nat \<Rightarrow> fl) \<Rightarrow> world \<Rightarrow> (error + fl \<times> fl) \<times> world" where
  "inception_score m bilinear ims batch_size splits yg sg wld =
     (case predictions m bilinear ims batch_size yg wld of
        (Inl e, wld') \<Rightarrow> (Inl e, wld')
      | (Inr ys, wld') \<Rightarrow>
          (aggregate sg ys (int (length (imgs (heap wld ! ims)))) splits, wld'))"

section \<open>The Inception classifier's entry\<close>

text \<open>
  \<^verbatim>\<open>Inception.__call__\<close> starts with \<^verbatim>\<open>x -= 128.0\<close> and
  \<^verbatim>\<open>x *= 0.0078125\<close> on the variable it is given. A Chainer variable defines the
  binary operators only, not the in-place ones, so Python evaluates \<^verbatim>\<open>x = x - 128.0\<close>
  and \<^verbatim>\<open>x = x * 0.0078125\<close>: each makes a new array and rebinds the local name. The
  layers that follow, up to the softmax, are the argument \<open>net\<close>.
\<close>

definition map_pixels :: "(fl \<Rightarrow> fl) \<Rightarrow> ndarray \<Rightarrow> ndarray" where
  "map_pixels f a = a\<lparr>imgs := map (map f) (imgs a)\<rparr>"

definition Inception_call :: "(config \<Rightarrow> ndarray \<Rightarrow> error + matrix) \<Rightarrow> classifier" where
  "Inception_call net cfg hp x =
     (let (hp1, x1) = alloc hp (map_pixels (\<lambda>p. fsub p (Fin 128)) (deref hp x));
          (hp2, x2) = alloc hp1 (map_pixels (\<lambda>p. fmul p (Fin 0.0078125)) (deref hp1 x1))
      in (net cfg (deref hp2 x2), hp2))"

text \<open>A classifier that has no effect: a function of the configuration and the images.\<close>

definition pure_classifier :: "(config \<Rightarrow> ndarray \<Rightarrow> error + matrix) \<Rightarrow> classifier" where
  "pure_classifier f cfg hp x = (f cfg (deref hp x), hp)"

section \<open>The score as the specification words it\<close>

text \<open>
  The marginal of a split is the column-wise mean of its rows; the contribution of row
  \<open>r\<close> and class \<open>c\<close> is \<open>part[r,c] * (log part[r,c] - log marginal[c])\<close>; these are
  summed over the classes of a row and averaged over the rows; the score is the
  exponential of that mean.
\<close>

definition spec_marginal :: "matrix \<Rightarrow> fl list" where
  "spec_marginal part = map (\<lambda>c. fmean (map (\<lambda>row. row ! c) part)) [0..<n_classes]"

definition spec_kl_row :: "fl list \<Rightarrow> fl list \<Rightarrow> fl" where
  "spec_kl_row marginal row =
     fsum (map (\<lambda>c. fmul (row ! c) (fsub (flog (row ! c)) (flog (marginal ! c))))
             [0..<n_classes])"

definition spec_split_score :: "matrix \<Rightarrow> fl" where
  "spec_split_score part = fexp (fmean (map (spec_kl_row (spec_marginal part)) part))"

text \<open>Arithmetic mean and population standard deviation of real numbers.\<close>

definition real_mean :: "real list \<Rightarrow> real" where
  "real_mean xs = sum_list xs / real (length xs)"

definition real_pstd :: "real list \<Rightarrow> real" where
  "real_pstd xs = sqrt (sum_list (map (\<lambda>x. (x - real_mean xs)\<^sup>2) xs) / real (length xs))"

section \<open>Notions for stating properties of a run\<close>

text \<open>The configuration in force inside the two \<^verbatim>\<open>using_config\<close> blocks.\<close>

definition inference_config :: "config \<Rightarrow> config" where
  "inference_config cfg = cfg(''train'' := False, ''enable_backprop'' := False)"

text \<open>The rows of batch \<open>i\<close>, and the rows that a recorded invocation's output put into
  the container (none when the classifier or the assignment raised).\<close>

definition batch_rows :: "int \<Rightarrow> int \<Rightarrow> int \<Rightarrow> nat list" where
  "batch_rows n batch_size i = range_rows (nat n) (batch_bounds n batch_size i)"

definition call_rows :: "nat \<Rightarrow> call \<Rightarrow> matrix" where
  "call_rows len c =
     (case call_output c of
        Inl e \<Rightarrow> []
      | Inr y \<Rightarrow>
          (let (l, h) = slice_bounds len (fst (call_range c)) (snd (call_range c))
           in case broadcast_to (h - l) n_classes y of None \<Rightarrow> [] | Some rows \<Rightarrow> rows))"

text \<open>The record and the heap that one iteration of the first loop leaves.\<close>

definition step_call ::
  "model \<Rightarrow> (ndarray \<Rightarrow> nat \<times> nat \<Rightarrow> ndarray) \<Rightarrow> nat \<Rightarrow> int \<Rightarrow> nat \<Rightarrow> nat \<Rightarrow> int
     \<Rightarrow> int \<Rightarrow> world \<Rightarrow> call" where
  "step_call m bilinear ims n w h batch_size i wld =
     (let rng = batch_bounds n batch_size i;
          (hp, v) = prepare_batch (xp m) bilinear ims w h rng (heap wld);
          cfg = inference_config (config wld)
      in \<lparr>call_config = cfg, call_range = rng, call_input = deref hp v,
          call_output = fst (forward m cfg hp v)\<rparr>)"

definition step_heap ::
  "model \<Rightarrow> (ndarray \<Rightarrow> nat \<times> nat \<Rightarrow> ndarray) \<Rightarrow> nat \<Rightarrow> int \<Rightarrow> nat \<Rightarrow> nat \<Rightarrow> int
     \<Rightarrow> int \<Rightarrow> world \<Rightarrow> ndarray list" where
  "step_heap m bilinear ims n w h batch_size i wld =
     (let rng = batch_bounds n batch_size i;
          (hp, v) = prepare_batch (xp m) bilinear ims w h rng (heap wld)
      in snd (forward m (inference_config (config wld)) hp v))"

text \<open>
  What holds after the first \<open>k\<close> iterations of the first loop, started on the
  container \<open>ys0\<close> in the world \<open>wld\<close>.
\<close>

definition driver_inv ::
  "int \<Rightarrow> int \<Rightarrow> matrix \<Rightarrow> world \<Rightarrow> nat \<Rightarrow> (error + matrix) \<times> world \<Rightarrow> bool" where
  "driver_inv n bs ys0 wld k rw =
     (config (snd rw) = config wld \<and>
      (\<exists>new. calls (snd rw) = calls wld @ new \<and> length new \<le> k
         \<and> map call_range new = map (batch_bounds n bs) (py_range (int (length new)))
         \<and> (\<forall>c\<in>set new. call_config c = inference_config (config wld))
         \<and> (case fst rw of
               Inl e \<Rightarrow> True
             | Inr ys \<Rightarrow> length new = k \<and> length ys = nat n
                 \<and> take (nat (min (int k * bs) n)) ys = concat (map (call_rows (nat n)) new)
                 \<and> drop (nat (min (int k * bs) n)) ys = drop (nat (min (int k * bs) n)) ys0
                 \<and> (\<forall>c\<in>set new.
                       length (call_rows (nat n) c) = length (range_rows (nat n) (call_range c))
                     \<and> list_all (\<lambda>row. length row = n_classes) (call_rows (nat n) c)))))"

text \<open>
  The images of a batch, and what the classifier is given for them: the slice, resized
  when the spatial shape is not \<open>299 \<times> 299\<close>.
\<close>

definition slice_imgs :: "ndarray \<Rightarrow> int \<times> int \<Rightarrow> ndarray" where
  "slice_imgs a rng = a\<lparr>imgs := py_slice (imgs a) (fst rng) (snd rng)\<rparr>"

definition batch_input ::
  "(ndarray \<Rightarrow> nat \<times> nat \<Rightarrow> ndarray) \<Rightarrow> nat \<Rightarrow> nat \<Rightarrow> ndarray \<Rightarrow> int \<times> int \<Rightarrow> ndarray" where
  "batch_input bilinear w h a rng =
     (if (w, h) \<noteq> (299, 299) then bilinear (slice_imgs a rng) (299, 299) else slice_imgs a rng)"

text \<open>A classifier that leaves every array that exists when it is called as it is.\<close>

definition allocates_only :: "classifier \<Rightarrow> bool" where
  "allocates_only fw = (\<forall>cfg hp v. take (length hp) (snd (fw cfg hp v)) = hp)"

text \<open>An interpolation that returns as many images as it is given.\<close>

definition keeps_count :: "(ndarray \<Rightarrow> nat \<times> nat \<Rightarrow> ndarray) \<Rightarrow> bool" where
  "keeps_count bilinear = (\<forall>a s. length (imgs (bilinear a s)) = length (imgs a))"

text \<open>
  For a classifier without effect: the rows that batch \<open>i\<close> contributes, or the error it
  ends with, and the rows of the first \<open>k\<close> batches, or the first error among them.
\<close>

definition batch_result ::
  "(config \<Rightarrow> ndarray \<Rightarrow> error + matrix) \<Rightarrow> config \<Rightarrow> (ndarray \<Rightarrow> nat \<times> nat \<Rightarrow> ndarray)
     \<Rightarrow> ndarray \<Rightarrow> int \<Rightarrow> int \<Rightarrow> error + matrix" where
  "batch_result f cfg bilinear a batch_size i =
     (let n = int (length (imgs a)); rng = batch_bounds n batch_size i
      in case f (inference_config cfg) (batch_input bilinear (dim2 a) (dim3 a) a rng) of
           Inl e \<Rightarrow> Inl e
         | Inr y \<Rightarrow>
             (case broadcast_to (length (range_rows (nat n) rng)) n_classes y of
                None \<Rightarrow> Inl ValueError
              | Some rows \<Rightarrow> Inr rows))"

fun collect_rows :: "(int \<Rightarrow> error + matrix) \<Rightarrow> nat \<Rightarrow> error + matrix" where
  "collect_rows g 0 = Inr []"
| "collect_rows g (Suc k) =
     (case collect_rows g k of
        Inl e \<Rightarrow> Inl e
      | Inr rows \<Rightarrow> (case g (int k) of Inl e \<Rightarrow> Inl e | Inr r \<Rightarrow> Inr (rows @ r)))"

definition pure_inv ::
  "(config \<Rightarrow> ndarray \<Rightarrow> error + matrix) \<Rightarrow> (ndarray \<Rightarrow> nat \<times> nat \<Rightarrow> ndarray) \<Rightarrow> nat
     \<Rightarrow> ndarray \<Rightarrow> int \<Rightarrow> matrix \<Rightarrow> world \<Rightarrow> nat \<Rightarrow> (error + matrix) \<times> world \<Rightarrow> bool" where
  "pure_inv f bl ims a bs ys0 wld k rw =
     (heap (snd rw) ! ims = a \<and> ims < length (heap (snd rw)) \<and> config (snd rw) = config wld \<and>
      (case collect_rows (batch_result f (config wld) bl a bs) k of
         Inl e \<Rightarrow> fst rw = Inl e
       | Inr rows \<Rightarrow>
           length rows = nat (min (int k * bs) (int (length (imgs a))))
         \<and> fst rw = Inr (rows @ drop (length rows) ys0)))"

section \<open>Example inputs\<close>

text \<open>
  An array of \<open>k\<close> images of shape \<open>3 \<times> 299 \<times> 299\<close>, a world that holds it at address
  0 with every flag on and no invocation recorded, a classifier that returns the same row
  for every image, the uniform and a one-hot distribution over the classes, and an
  interpolation that returns its argument (never called on \<open>299 \<times> 299\<close> images).
\<close>

definition blank_images :: "nat \<Rightarrow> ndarray" where
  "blank_images k =
     \<lparr>chans = 3, dim2 = 299, dim3 = 299, imgs = replicate k (replicate (3 * 299 * 299) (Fin 0))\<rparr>"

definition start_world :: "nat \<Rightarrow> world" where
  "start_world k = \<lparr>heap = [blank_images k], config = (\<lambda>name. True), calls = []\<rparr>"

definition const_classifier :: "fl list \<Rightarrow> config \<Rightarrow> ndarray \<Rightarrow> error + matrix" where
  "const_classifier p cfg a = Inr (map (\<lambda>img. p) (imgs a))"

definition const_model :: "fl list \<Rightarrow> model" where
  "const_model p = \<lparr>xp = NumPy, forward = pure_classifier (const_classifier p)\<rparr>"

definition uniform :: "fl list" where
  "uniform = replicate n_classes (Fin (1 / 1008))"

definition one_hot :: "fl list" where
  "one_hot = Fin 1 # replicate (n_classes - 1) (Fin 0)"

definition no_resize :: "ndarray \<Rightarrow> nat \<times> nat \<Rightarrow> ndarray" where
  "no_resize a shape = a"

text \<open>
  A classifier that always raises, and a model whose classifier is the Inception entry
  followed by given layers.
\<close>

definition failing_model :: model where
  "failing_model = \<lparr>xp = NumPy, forward = pure_classifier (\<lambda>cfg a. Inl (ClassifierError 0))\<rparr>"

definition inception_model :: "(config \<Rightarrow> ndarray \<Rightarrow> error + matrix) \<Rightarrow> model" where
  "inception_model net = \<lparr>xp = NumPy, forward = Inception_call net\<rparr>"

section \<open>Splits partition the rows\<close>

lemma div01:
  fixes y S :: int
  assumes "0 \<le> y" "y < 2 * S"
  shows "y div S = 0 \<or> y div S = 1"
proof (cases "y < S")
  case True
  then show ?thesis using assms by simp
next
  case False
  then have "0 \<le> y - S" "y - S < S" using assms by linarith+
  then have "(y - S) div S = 0" by simp
  moreover have "y div S = (y - S + S) div S" by simp
  moreover have "S \<noteq> 0" using assms by linarith
  ultimately have "y div S = 1" by (metis add.left_neutral div_add_self2)
  then show ?thesis by simp
qed

lemma div_step:
  fixes x r S :: int
  assumes "0 < S" "0 \<le> r" "r < S"
  shows "(x + r) div S = x div S \<or> (x + r) div S = x div S + 1"
proof -
  have "(x + r) div S = x div S + r div S + (x mod S + r mod S) div S"
    by (rule div_add1_eq)
  moreover have "r div S = 0" using assms by simp
  moreover have "r mod S = r" using assms by simp
  moreover have "0 \<le> x mod S + r" "x mod S + r < 2 * S"
    using assms pos_mod_sign[of S x] pos_mod_bound[of S x] by linarith+
  then have "(x mod S + r) div S = 0 \<or> (x mod S + r) div S = 1"
    by (rule div01)
  ultimately show ?thesis by auto
qed

lemma split_size:
  fixes N S s :: int
  assumes "0 < S" "0 \<le> N"
  shows "(s + 1) * N div S - s * N div S = N div S
       \<or> (s + 1) * N div S - s * N div S = N div S + 1"
proof -
  have eq: "(s + 1) * N = (s * N + N mod S) + (N div S) * S"
    by (simp add: algebra_simps)
  have "(s + 1) * N div S = (s * N + N mod S) div S + N div S"
    using assms by (simp only: eq div_mult_self1)
  moreover have "(s * N + N mod S) div S = s * N div S \<or> (s * N + N mod S) div S = s * N div S + 1"
    using assms by (intro div_step) simp_all
  ultimately show ?thesis by auto
qed

lemma split_mono:
  fixes N S s :: int
  assumes "0 < S" "0 \<le> N"
  shows "s * N div S \<le> (s + 1) * N div S"
  using assms by (intro zdiv_mono1) (simp_all add: algebra_simps)

lemma split_lo_nonneg:
  fixes N S s :: int
  assumes "0 < S" "0 \<le> N" "0 \<le> s"
  shows "0 \<le> s * N div S"
  using assms by (simp add: pos_imp_zdiv_nonneg_iff)

lemma split_hi_le:
  fixes N S s :: int
  assumes "0 < S" "0 \<le> N" "s < S"
  shows "(s + 1) * N div S \<le> N"
proof -
  have "(s + 1) * N \<le> S * N" using assms by (intro mult_right_mono) simp_all
  then have "(s + 1) * N div S \<le> S * N div S" using assms by (intro zdiv_mono1) simp_all
  then show ?thesis using assms by simp
qed

lemma slice_bounds_ordered:
  assumes "0 \<le> a" "a \<le> b" "b \<le> int len"
  shows "slice_bounds len a b = (nat a, nat b)"
  using assms by (auto simp: slice_bounds_def norm_index_def Let_def)

lemma split_rows_eq:
  assumes "0 < S" "0 \<le> N" "0 \<le> s" "s < S"
  shows "split_rows N S s = [nat (s * N div S)..<nat ((s + 1) * N div S)]"
proof -
  have "slice_bounds (nat N) (s * N div S) ((s + 1) * N div S)
        = (nat (s * N div S), nat ((s + 1) * N div S))"
    using assms split_lo_nonneg[of S N s] split_mono[of S N s] split_hi_le[of S N s]
    by (intro slice_bounds_ordered) simp_all
  then show ?thesis by (simp add: split_rows_def range_rows_def split_range_def)
qed

lemma split_part_eq:
  assumes "0 < S" "0 \<le> N" "0 \<le> s" "s < S" "length ys = nat N"
  shows "split_part ys N S s
     = take (nat ((s + 1) * N div S) - nat (s * N div S)) (drop (nat (s * N div S)) ys)"
proof -
  have "slice_bounds (nat N) (s * N div S) ((s + 1) * N div S)
        = (nat (s * N div S), nat ((s + 1) * N div S))"
    using assms split_lo_nonneg[of S N s] split_mono[of S N s] split_hi_le[of S N s]
    by (intro slice_bounds_ordered) simp_all
  then show ?thesis using assms by (simp add: split_part_def split_range_def py_slice_def)
qed

lemma split_rows_prefix:
  assumes "0 < S" "0 \<le> N" "int k \<le> S"
  shows "concat (map (split_rows N S) (map int [0..<k])) = [0..<nat (int k * N div S)]"
  using assms(3)
proof (induction k)
  case 0
  then show ?case by simp
next
  case (Suc k)
  have lo: "0 \<le> int k * N div S" using assms by (intro split_lo_nonneg) simp_all
  have mono: "int k * N div S \<le> (int k + 1) * N div S" using assms by (intro split_mono)
  have "split_rows N S (int k) = [nat (int k * N div S)..<nat ((int k + 1) * N div S)]"
    using assms Suc.prems by (intro split_rows_eq) simp_all
  moreover have "concat (map (split_rows N S) (map int [0..<k])) = [0..<nat (int k * N div S)]"
    using Suc by simp
  moreover have "[0..<nat (int k * N div S)] @ [nat (int k * N div S)..<nat ((int k + 1) * N div S)]
      = [0..<nat ((int k + 1) * N div S)]"
    using lo mono by (metis le0 nat_mono le_Suc_ex upt_add_eq_append)
  ultimately show ?case by (simp add: add.commute)
qed

lemma split_part_prefix:
  assumes "0 < S" "0 \<le> N" "int k \<le> S" "length ys = nat N"
  shows "concat (map (split_part ys N S) (map int [0..<k])) = take (nat (int k * N div S)) ys"
  using assms(3)
proof (induction k)
  case 0
  then show ?case by simp
next
  case (Suc k)
  have lo: "0 \<le> int k * N div S" using assms by (intro split_lo_nonneg) simp_all
  have mono: "int k * N div S \<le> (int k + 1) * N div S" using assms by (intro split_mono)
  have "split_part ys N S (int k)
      = take (nat ((int k + 1) * N div S) - nat (int k * N div S)) (drop (nat (int k * N div S)) ys)"
    using assms Suc.prems by (intro split_part_eq) simp_all
  moreover have "concat (map (split_part ys N S) (map int [0..<k])) = take (nat (int k * N div S)) ys"
    using Suc by simp
  moreover have "take (nat (int k * N div S)) ys
       @ take (nat ((int k + 1) * N div S) - nat (int k * N div S)) (drop (nat (int k * N div S)) ys)
      = take (nat ((int k + 1) * N div S)) ys"
    using lo mono by (metis le_add_diff_inverse nat_mono take_add)
  ultimately show ?case by (simp add: add.commute)
qed

lemma sum_list_sizes:
  assumes "0 < S" "0 \<le> N" "int k \<le> S"
  shows "(\<Sum>s\<leftarrow>map int [0..<k]. snd (split_range N S s) - fst (split_range N S s)) = int k * N div S"
  using assms(3)
  by (induction k) (simp_all add: split_range_def algebra_simps)

section \<open>The first loop\<close>

lemma using_config_call:
  "using_config ''train'' False (using_config ''enable_backprop'' False (call_model m rng v)) wld
   = (let cfg = inference_config (config wld);
          (r, hp') = forward m cfg (heap wld) v
      in (r, wld\<lparr>heap := hp',
                  calls := calls wld @
                    [\<lparr>call_config = cfg, call_range = rng,
                      call_input = deref (heap wld) v, call_output = r\<rparr>]\<rparr>))"
proof -
  have restore: "(config wld)(''train'' := False, ''enable_backprop'' := False,
                   ''enable_backprop'' := config wld ''enable_backprop'',
                   ''train'' := config wld ''train'') = config wld"
    by (auto simp: fun_eq_iff)
  show ?thesis
    by (simp add: using_config_def call_model_def inference_config_def Let_def
        restore split: prod.splits)
qed

lemma batch_body_eq:
  "batch_body m bilinear ims n w h bs i ys wld =
     (let c = step_call m bilinear ims n w h bs i wld
      in (case call_output c of
            Inl e \<Rightarrow> Inl e
          | Inr y \<Rightarrow> setitem_rows n_classes ys (fst (call_range c)) (snd (call_range c)) y,
          wld\<lparr>heap := step_heap m bilinear ims n w h bs i wld,
               calls := calls wld @ [c]\<rparr>))"
  by (simp add: batch_body_def using_config_call step_call_def step_heap_def Let_def
      split: prod.splits sum.splits)

lemma batch_loop_append:
  "batch_loop body (xs @ zs) ys wld =
     (case batch_loop body xs ys wld of
        (Inl e, wld') \<Rightarrow> (Inl e, wld')
      | (Inr ys', wld') \<Rightarrow> batch_loop body zs ys' wld')"
  by (induction xs arbitrary: ys wld) (auto split: prod.splits sum.splits)

lemma py_range_Suc: "py_range (int (Suc k)) = py_range (int k) @ [int k]"
proof -
  have "nat (int (Suc k)) = Suc k" by (rule nat_int)
  then show ?thesis unfolding py_range_def by simp
qed

lemma less_ceiling_mult:
  fixes n bs i :: int
  assumes "0 < bs" "i < \<lceil>(of_int n :: real) / of_int bs\<rceil>"
  shows "i * bs < n"
proof -
  have "(of_int i :: real) < of_int n / of_int bs" using assms(2) by (simp add: less_ceiling_iff)
  then have "(of_int i :: real) * of_int bs < of_int n" using assms(1) by (simp add: pos_less_divide_eq)
  then have "(of_int (i * bs) :: real) < of_int n" by simp
  then show ?thesis by (simp only: of_int_less_iff)
qed

lemma ceiling_mult_ge:
  fixes n bs :: int
  assumes "0 < bs"
  shows "n \<le> \<lceil>(of_int n :: real) / of_int bs\<rceil> * bs"
proof -
  have "(of_int n :: real) / of_int bs \<le> of_int \<lceil>(of_int n :: real) / of_int bs\<rceil>" by (rule le_of_int_ceiling)
  moreover have "(0::real) < of_int bs" using assms by simp
  ultimately have "(of_int n :: real) \<le> of_int \<lceil>(of_int n :: real) / of_int bs\<rceil> * of_int bs"
    by (simp only: pos_divide_le_eq)
  then have "(of_int n :: real) \<le> of_int (\<lceil>(of_int n :: real) / of_int bs\<rceil> * bs)" by simp
  then show ?thesis by (simp only: of_int_le_iff)
qed

lemma batch_slice_bounds:
  assumes "0 < bs" "0 \<le> n" "0 \<le> i" "i * bs < n"
  shows "slice_bounds (nat n) (i * bs) (min ((i + 1) * bs) n) = (nat (i * bs), nat (min ((i + 1) * bs) n))"
proof -
  have "0 \<le> i * bs" using assms by simp
  moreover have "i * bs \<le> min ((i + 1) * bs) n" using assms by (simp add: algebra_simps)
  moreover have "min ((i + 1) * bs) n \<le> int (nat n)" using assms by simp
  ultimately show ?thesis by (rule slice_bounds_ordered)
qed

lemma broadcast_to_Some:
  assumes "broadcast_to k c y = Some rows"
  shows "length rows = k" and "\<forall>row\<in>set rows. length row = c"
  using assms by (auto simp: broadcast_to_def Let_def split: if_splits)

lemma setitem_rows_Inr:
  assumes "setitem_rows c ys a b y = Inr ys'" and "slice_bounds (length ys) a b = (l, h)"
  shows "\<exists>rows. broadcast_to (h - l) c y = Some rows \<and> ys' = take l ys @ rows @ drop h ys"
  using assms by (auto simp: setitem_rows_def split: option.splits)

lemma splice_take:
  assumes "l \<le> h" "h \<le> length ys" "length rows = h - l"
  shows "take h (take l ys @ rows @ drop h ys) = take l ys @ rows"
    and "drop h (take l ys @ rows @ drop h ys) = drop h ys"
    and "length (take l ys @ rows @ drop h ys) = length ys"
  using assms by (simp_all add: min_absorb2)

lemma drop_eq_mono:
  assumes "drop l xs = drop l zs" "l \<le> h"
  shows "drop h xs = drop h zs"
proof -
  have "drop h xs = drop (h - l) (drop l xs)" using assms(2) by simp
  also have "\<dots> = drop (h - l) (drop l zs)" using assms(1) by simp
  also have "\<dots> = drop h zs" using assms(2) by simp
  finally show ?thesis .
qed

lemma step_call_simps:
  "call_range (step_call m bl ims n w h bs i wld) = batch_bounds n bs i"
  "call_config (step_call m bl ims n w h bs i wld) = inference_config (config wld)"
  by (simp_all add: step_call_def Let_def split: prod.splits)

lemma driver_inv_step:
  fixes n bs :: int
  assumes bs: "0 < bs" and n: "0 \<le> n"
    and k: "int k < \<lceil>(of_int n :: real) / of_int bs\<rceil>"
    and inv: "driver_inv n bs ys0 wld k (Inr ys1, wld1)"
  shows "driver_inv n bs ys0 wld (Suc k) (batch_body m bl ims n w h bs (int k) ys1 wld1)"
proof -
  define c where "c = step_call m bl ims n w h bs (int k) wld1"
  define wld2 where "wld2 = wld1\<lparr>heap := step_heap m bl ims n w h bs (int k) wld1,
               calls := calls wld1 @ [c]\<rparr>"
  define r2 where "r2 = (case call_output c of
            Inl e \<Rightarrow> Inl e
          | Inr y \<Rightarrow> setitem_rows n_classes ys1 (fst (call_range c)) (snd (call_range c)) y)"
  have body: "batch_body m bl ims n w h bs (int k) ys1 wld1 = (r2, wld2)"
    unfolding c_def wld2_def r2_def by (simp add: batch_body_eq Let_def)
  from inv obtain new where
    cfg1: "config wld1 = config wld" and
    new: "calls wld1 = calls wld @ new" "length new = k"
      "map call_range new = map (batch_bounds n bs) (py_range (int (length new)))"
      "\<forall>c\<in>set new. call_config c = inference_config (config wld)" and
    ys1: "length ys1 = nat n"
      "take (nat (min (int k * bs) n)) ys1 = concat (map (call_rows (nat n)) new)"
      "drop (nat (min (int k * bs) n)) ys1 = drop (nat (min (int k * bs) n)) ys0"
      "\<forall>c\<in>set new.
         length (call_rows (nat n) c) = length (range_rows (nat n) (call_range c))
       \<and> list_all (\<lambda>row. length row = n_classes) (call_rows (nat n) c)"
    by (auto simp: driver_inv_def)
  have rng: "call_range c = (int k * bs, min ((int k + 1) * bs) n)"
    by (simp add: c_def step_call_simps batch_bounds_def)
  have ccfg: "call_config c = inference_config (config wld)"
    by (simp add: c_def step_call_simps cfg1)
  have lt: "int k * bs < n" using bs k by (rule less_ceiling_mult)
  define l where "l = nat (int k * bs)"
  define u where "u = nat (min ((int k + 1) * bs) n)"
  have sb: "slice_bounds (nat n) (int k * bs) (min ((int k + 1) * bs) n) = (l, u)"
    unfolding l_def u_def using bs n _ lt by (rule batch_slice_bounds) simp
  have lu: "l \<le> u" "u \<le> nat n"
    using bs n lt by (simp_all add: l_def u_def algebra_simps nat_le_iff)
  have lmin: "nat (min (int k * bs) n) = l" using lt by (simp add: l_def min_absorb1)
  have umin: "nat (min (int (Suc k) * bs) n) = u" by (simp add: u_def add.commute)
  have cfg2: "config wld2 = config wld" by (simp add: wld2_def cfg1)
  have calls2: "calls wld2 = calls wld @ (new @ [c])" by (simp add: wld2_def new(1))
  have ranges2: "map call_range (new @ [c]) = map (batch_bounds n bs) (py_range (int (length (new @ [c]))))"
    using new(2,3) rng unfolding length_append_singleton py_range_Suc by (simp add: batch_bounds_def)
  have cfgs2: "\<forall>c'\<in>set (new @ [c]). call_config c' = inference_config (config wld)"
    using new(4) ccfg by auto
  have res: "length ys2 = nat n
        \<and> take (nat (min (int (Suc k) * bs) n)) ys2 = concat (map (call_rows (nat n)) (new @ [c]))
        \<and> drop (nat (min (int (Suc k) * bs) n)) ys2 = drop (nat (min (int (Suc k) * bs) n)) ys0
        \<and> (\<forall>c'\<in>set (new @ [c]).
              length (call_rows (nat n) c') = length (range_rows (nat n) (call_range c'))
            \<and> list_all (\<lambda>row. length row = n_classes) (call_rows (nat n) c'))"
    if r2: "r2 = Inr ys2" for ys2
  proof -
    from r2 obtain y where y: "call_output c = Inr y"
      and set: "setitem_rows n_classes ys1 (int k * bs) (min ((int k + 1) * bs) n) y = Inr ys2"
      by (auto simp: r2_def rng split: sum.splits)
    from setitem_rows_Inr[OF set] sb ys1(1) obtain rows where
      rows: "broadcast_to (u - l) n_classes y = Some rows" and
      ys2: "ys2 = take l ys1 @ rows @ drop u ys1"
      by auto
    have lr: "length rows = u - l" using rows by (rule broadcast_to_Some)
    have cr: "call_rows (nat n) c = rows"
      by (simp add: call_rows_def y rng sb rows)
    have u1: "u \<le> length ys1" using lu ys1(1) by simp
    have t1: "take l ys1 = concat (map (call_rows (nat n)) new)" using ys1(2) by (simp only: lmin)
    have d1: "drop l ys1 = drop l ys0" using ys1(3) by (simp only: lmin)
    have "length ys2 = length ys1" unfolding ys2 by (rule splice_take(3)[OF lu(1) u1 lr])
    then have "length ys2 = nat n" by (simp only: ys1(1))
    moreover have "take u ys2 = concat (map (call_rows (nat n)) (new @ [c]))"
    proof -
      have "take u ys2 = take l ys1 @ rows" unfolding ys2 by (rule splice_take(1)[OF lu(1) u1 lr])
      also have "\<dots> = concat (map (call_rows (nat n)) new) @ rows" by (simp only: t1)
      also have "\<dots> = concat (map (call_rows (nat n)) (new @ [c]))" by (simp add: cr)
      finally show ?thesis .
    qed
    moreover have "drop u ys2 = drop u ys0"
    proof -
      have "drop u ys2 = drop u ys1" unfolding ys2 by (rule splice_take(2)[OF lu(1) u1 lr])
      also have "\<dots> = drop u ys0" using d1 lu(1) by (rule drop_eq_mono)
      finally show ?thesis .
    qed
    moreover have "length (call_rows (nat n) c) = length (range_rows (nat n) (call_range c))"
      by (simp add: cr lr range_rows_def rng sb)
    moreover have "list_all (\<lambda>row. length row = n_classes) (call_rows (nat n) c)"
      using broadcast_to_Some(2)[OF rows] by (simp add: cr list_all_iff)
    ultimately show ?thesis using ys1(4) by (simp only: umin) simp
  qed
  show ?thesis
    unfolding body driver_inv_def
    apply (simp only: fst_conv snd_conv cfg2 calls2)
    apply (rule conjI, rule refl)
    apply (rule exI[of _ "new @ [c]"])
    using ranges2 cfgs2 new(2) res by (auto split: sum.splits)
qed

lemma driver_inv_loop:
  fixes n bs :: int
  assumes bs: "0 < bs" and n: "0 \<le> n" and len: "length ys0 = nat n"
    and k: "int k \<le> \<lceil>(of_int n :: real) / of_int bs\<rceil>"
  shows "driver_inv n bs ys0 wld k
           (batch_loop (batch_body m bl ims n w h bs) (py_range (int k)) ys0 wld)"
  using k
proof (induction k)
  case 0
  show ?case using len by (simp add: py_range_def driver_inv_def)
next
  case (Suc k)
  let ?body = "batch_body m bl ims n w h bs"
  obtain res wld1 where pre: "batch_loop ?body (py_range (int k)) ys0 wld = (res, wld1)"
    by (cases "batch_loop ?body (py_range (int k)) ys0 wld")
  have inv: "driver_inv n bs ys0 wld k (res, wld1)" using Suc pre by simp
  show ?case
  proof (cases res)
    case (Inl e)
    have "batch_loop ?body (py_range (int (Suc k))) ys0 wld = (Inl e, wld1)"
      unfolding py_range_Suc batch_loop_append pre Inl by simp
    moreover have "driver_inv n bs ys0 wld (Suc k) (Inl e, wld1)"
      using inv Inl by (auto simp: driver_inv_def)
    ultimately show ?thesis by simp
  next
    case (Inr ys1)
    have "batch_loop ?body (py_range (int (Suc k))) ys0 wld = ?body (int k) ys1 wld1"
      unfolding py_range_Suc batch_loop_append pre Inr by (simp split: prod.splits sum.splits)
    moreover have "driver_inv n bs ys0 wld (Suc k) (?body (int k) ys1 wld1)"
      using bs n _ inv[unfolded Inr] by (rule driver_inv_step) (use Suc.prems in simp)
    ultimately show ?thesis by simp
  qed
qed

section \<open>The heap and the classifier's input\<close>

lemma deref_getslice: "deref hp (getslice hp ims a b) = slice_imgs (hp ! ims) (a, b)"
  by (simp add: deref_def getslice_def slice_imgs_def py_slice_def split: prod.splits)

lemma deref_alloc:
  assumes "alloc hp a = (hp', v)"
  shows "deref hp' v = a" and "take (length hp) hp' = hp"
  using assms by (auto simp: alloc_def deref_def)

lemma asarray_props:
  assumes "asarray b hp v = (hp', v')"
  shows "deref hp' v' = deref hp v" and "take (length hp) hp' = hp"
proof -
  show "deref hp' v' = deref hp v"
  proof (cases b)
    case NumPy
    then show ?thesis using assms by (simp add: asarray_def)
  next
    case CuPy
    then have "alloc hp (deref hp v) = (hp', v')" using assms by (simp add: asarray_def)
    then show ?thesis by (rule deref_alloc(1))
  qed
  show "take (length hp) hp' = hp"
  proof (cases b)
    case NumPy
    then show ?thesis using assms by (simp add: asarray_def)
  next
    case CuPy
    then have "alloc hp (deref hp v) = (hp', v')" using assms by (simp add: asarray_def)
    then show ?thesis by (rule deref_alloc(2))
  qed
qed

lemma take_prefix_trans:
  assumes "take (length xs) ys = xs" "take (length ys) zs = ys"
  shows "take (length xs) zs = xs"
proof -
  have "length (take (length xs) ys) = length xs" using assms(1) by simp
  then have "length xs \<le> length ys" by simp
  then have "take (length xs) zs = take (length xs) (take (length ys) zs)" by (simp add: min_absorb1)
  then show ?thesis using assms by simp
qed

lemma take_prefix_nth:
  assumes "take (length xs) ys = xs" "i < length xs"
  shows "ys ! i = xs ! i" and "i < length ys"
proof -
  have "take (length xs) ys ! i = ys ! i" using assms(2) by (rule nth_take)
  then show "ys ! i = xs ! i" using assms(1) by simp
  have "length (take (length xs) ys) = length xs" using assms(1) by simp
  then have "length xs \<le> length ys" by simp
  then show "i < length ys" using assms(2) by simp
qed

lemma prepare_batch_props:
  assumes "prepare_batch b bl ims w h rng hp = (hp', v)"
  shows "deref hp' v = batch_input bl w h (hp ! ims) rng" and "take (length hp) hp' = hp"
proof -
  obtain hp1 v1 where as: "asarray b hp (getslice hp ims (fst rng) (snd rng)) = (hp1, v1)"
    by (cases "asarray b hp (getslice hp ims (fst rng) (snd rng))")
  have d1: "deref hp1 v1 = slice_imgs (hp ! ims) rng"
    using asarray_props(1)[OF as] by (simp add: deref_getslice)
  have p1: "take (length hp) hp1 = hp" using as by (rule asarray_props(2))
  show "deref hp' v = batch_input bl w h (hp ! ims) rng"
  proof (cases "(w, h) \<noteq> (299, 299)")
    case True
    then have "alloc hp1 (bl (deref hp1 v1) (299, 299)) = (hp', v)"
      using assms as by (simp add: prepare_batch_def resize_images_def Let_def)
    then have "deref hp' v = bl (deref hp1 v1) (299, 299)" by (rule deref_alloc(1))
    then show ?thesis using True d1 by (simp add: batch_input_def)
  next
    case False
    then have "(hp', v) = (hp1, v1)"
      using assms as by (simp add: prepare_batch_def Let_def)
    then show ?thesis using False d1 by (simp add: batch_input_def)
  qed
  show "take (length hp) hp' = hp"
  proof (cases "(w, h) \<noteq> (299, 299)")
    case True
    then have "alloc hp1 (bl (deref hp1 v1) (299, 299)) = (hp', v)"
      using assms as by (simp add: prepare_batch_def resize_images_def Let_def)
    then have "take (length hp1) hp' = hp1" by (rule deref_alloc(2))
    with p1 show ?thesis by (rule take_prefix_trans)
  next
    case False
    then have "(hp', v) = (hp1, v1)"
      using assms as by (simp add: prepare_batch_def Let_def)
    then show ?thesis using p1 by simp
  qed
qed

lemma step_heap_prefix:
  assumes "allocates_only (forward m)"
  shows "take (length (heap wld)) (step_heap m bl ims n w h bs i wld) = heap wld"
proof -
  obtain hp v where pb: "prepare_batch (xp m) bl ims w h (batch_bounds n bs i) (heap wld) = (hp, v)"
    by (cases "prepare_batch (xp m) bl ims w h (batch_bounds n bs i) (heap wld)")
  have "take (length (heap wld)) hp = heap wld" using pb by (rule prepare_batch_props(2))
  moreover have "take (length hp) (snd (forward m (inference_config (config wld)) hp v)) = hp"
    using assms by (simp add: allocates_only_def)
  ultimately have "take (length (heap wld)) (snd (forward m (inference_config (config wld)) hp v)) = heap wld"
    by (rule take_prefix_trans)
  then show ?thesis by (simp add: step_heap_def pb)
qed

lemma step_call_input:
  "call_input (step_call m bl ims n w h bs i wld)
     = batch_input bl w h (heap wld ! ims) (batch_bounds n bs i)"
proof -
  obtain hp v where pb: "prepare_batch (xp m) bl ims w h (batch_bounds n bs i) (heap wld) = (hp, v)"
    by (cases "prepare_batch (xp m) bl ims w h (batch_bounds n bs i) (heap wld)")
  show ?thesis using prepare_batch_props(1)[OF pb] by (simp add: step_call_def pb Let_def)
qed

lemma allocates_only_pure: "allocates_only (pure_classifier f)"
  by (simp add: allocates_only_def pure_classifier_def)

lemma allocates_only_Inception: "allocates_only (Inception_call net)"
proof -
  have "take (length hp) (snd (Inception_call net cfg hp v)) = hp" for cfg hp v
    by (simp add: Inception_call_def alloc_def Let_def)
  then show ?thesis by (simp add: allocates_only_def)
qed

lemma step_call_output_pure:
  assumes "forward m = pure_classifier f"
  shows "call_output (step_call m bl ims n w h bs i wld)
     = f (inference_config (config wld)) (batch_input bl w h (heap wld ! ims) (batch_bounds n bs i))"
proof -
  obtain hp v where pb: "prepare_batch (xp m) bl ims w h (batch_bounds n bs i) (heap wld) = (hp, v)"
    by (cases "prepare_batch (xp m) bl ims w h (batch_bounds n bs i) (heap wld)")
  show ?thesis using prepare_batch_props(1)[OF pb]
    by (simp add: step_call_def pb assms pure_classifier_def Let_def)
qed

section \<open>The first loop with a classifier without effect\<close>

lemma pure_inv_step:
  fixes bs :: int
  assumes fw: "forward m = pure_classifier f" and bs: "0 < bs"
    and len: "length ys0 = length (imgs a)"
    and k: "int k < \<lceil>(of_int (int (length (imgs a))) :: real) / of_int bs\<rceil>"
    and inv: "pure_inv f bl ims a bs ys0 wld k (Inr ys1, wld1)"
  shows "pure_inv f bl ims a bs ys0 wld (Suc k)
           (batch_body m bl ims (int (length (imgs a))) (dim2 a) (dim3 a) bs (int k) ys1 wld1)"
proof -
  define n where "n = int (length (imgs a))"
  define g where "g = batch_result f (config wld) bl a bs"
  define c where "c = step_call m bl ims n (dim2 a) (dim3 a) bs (int k) wld1"
  define hp2 where "hp2 = step_heap m bl ims n (dim2 a) (dim3 a) bs (int k) wld1"
  define rng where "rng = batch_bounds n bs (int k)"
  have n0: "0 \<le> n" by (simp add: n_def)
  from inv obtain rows where
    hp1: "heap wld1 ! ims = a" "ims < length (heap wld1)" and
    cfg1: "config wld1 = config wld" and
    col: "collect_rows g k = Inr rows" and
    lrows: "length rows = nat (min (int k * bs) n)" and
    ys1: "ys1 = rows @ drop (length rows) ys0"
    by (auto simp: pure_inv_def g_def n_def split: sum.splits)
  have lt: "int k * bs < n" using bs k unfolding n_def by (rule less_ceiling_mult)
  define l where "l = nat (int k * bs)"
  define u where "u = nat (min ((int k + 1) * bs) n)"
  have sb: "slice_bounds (nat n) (int k * bs) (min ((int k + 1) * bs) n) = (l, u)"
    unfolding l_def u_def using bs n0 _ lt by (rule batch_slice_bounds) simp
  have lu: "l \<le> u" "u \<le> nat n"
    using bs n0 lt by (simp_all add: l_def u_def algebra_simps nat_le_iff)
  have lrows': "length rows = l" using lrows lt by (simp add: l_def min_absorb1)
  have lys1: "length ys1 = nat n" using lrows' lu len by (simp add: ys1 n_def)
  have rr: "length (range_rows (nat n) rng) = u - l"
    by (simp add: range_rows_def rng_def batch_bounds_def sb)
  have pre: "take (length (heap wld1)) hp2 = heap wld1"
    unfolding hp2_def using fw by (intro step_heap_prefix) (simp add: allocates_only_pure)
  have hp2: "hp2 ! ims = a" "ims < length hp2"
    using take_prefix_nth[OF pre hp1(2)] hp1(1) by simp_all
  have out: "call_output c = f (inference_config (config wld)) (batch_input bl (dim2 a) (dim3 a) a rng)"
    unfolding c_def using step_call_output_pure[OF fw] by (simp add: hp1 cfg1 rng_def)
  have crng: "call_range c = (int k * bs, min ((int k + 1) * bs) n)"
    by (simp add: c_def step_call_simps batch_bounds_def)
  have gk: "g (int k) = (case call_output c of Inl e \<Rightarrow> Inl e
       | Inr y \<Rightarrow> (case broadcast_to (u - l) n_classes y of None \<Rightarrow> Inl ValueError | Some r \<Rightarrow> Inr r))"
    using rr by (simp add: g_def batch_result_def Let_def out n_def[symmetric] rng_def[symmetric]
        split: sum.splits)
  have body: "batch_body m bl ims n (dim2 a) (dim3 a) bs (int k) ys1 wld1 =
     (case call_output c of
            Inl e \<Rightarrow> Inl e
          | Inr y \<Rightarrow> setitem_rows n_classes ys1 (int k * bs) (min ((int k + 1) * bs) n) y,
      wld1\<lparr>heap := hp2, calls := calls wld1 @ [c]\<rparr>)"
    unfolding c_def hp2_def
    by (simp add: batch_body_eq Let_def step_call_simps batch_bounds_def split: sum.splits)
  have setitem: "setitem_rows n_classes ys1 (int k * bs) (min ((int k + 1) * bs) n) y
      = (case broadcast_to (u - l) n_classes y of None \<Rightarrow> Inl ValueError
         | Some r \<Rightarrow> Inr ((rows @ r) @ drop (length (rows @ r)) ys0))" for y
  proof (cases "broadcast_to (u - l) n_classes y")
    case None
    then show ?thesis by (simp add: setitem_rows_def lys1 sb)
  next
    case (Some r)
    have lr: "length r = u - l" using Some by (rule broadcast_to_Some)
    have "take l ys1 = rows" by (simp add: ys1 lrows')
    moreover have "drop u ys1 = drop u ys0"
    proof -
      have "drop l ys1 = drop l ys0" by (simp add: ys1 lrows')
      then show ?thesis using lu(1) by (rule drop_eq_mono)
    qed
    moreover have "length (rows @ r) = u" using lr lrows' lu by simp
    ultimately show ?thesis by (simp add: setitem_rows_def lys1 sb Some)
  qed
  have col': "collect_rows g (Suc k) = (case g (int k) of Inl e \<Rightarrow> Inl e | Inr r \<Rightarrow> Inr (rows @ r))"
    by (simp add: col)
  have len': "length (rows @ r) = nat (min (int (Suc k) * bs) n)"
    if "broadcast_to (u - l) n_classes y = Some r" for y r
  proof -
    have "length r = u - l" using that by (rule broadcast_to_Some)
    then show ?thesis using lrows' lu by (simp add: u_def add.commute)
  qed
  show ?thesis
    unfolding pure_inv_def n_def[symmetric] g_def[symmetric] body col' gk
    using hp2 cfg1 setitem len'
    by (auto split: sum.splits option.splits)
qed

lemma pure_inv_loop:
  fixes bs :: int
  assumes fw: "forward m = pure_classifier f" and bs: "0 < bs"
    and a: "heap wld ! ims = a" "ims < length (heap wld)"
    and len: "length ys0 = length (imgs a)"
    and k: "int k \<le> \<lceil>(of_int (int (length (imgs a))) :: real) / of_int bs\<rceil>"
  shows "pure_inv f bl ims a bs ys0 wld k
           (batch_loop (batch_body m bl ims (int (length (imgs a))) (dim2 a) (dim3 a) bs)
              (py_range (int k)) ys0 wld)"
  using k
proof (induction k)
  case 0
  show ?case using a by (simp add: py_range_def pure_inv_def)
next
  case (Suc k)
  let ?body = "batch_body m bl ims (int (length (imgs a))) (dim2 a) (dim3 a) bs"
  obtain res wld1 where pre: "batch_loop ?body (py_range (int k)) ys0 wld = (res, wld1)"
    by (cases "batch_loop ?body (py_range (int k)) ys0 wld")
  have inv: "pure_inv f bl ims a bs ys0 wld k (res, wld1)" using Suc pre by simp
  show ?case
  proof (cases res)
    case (Inl e)
    have "batch_loop ?body (py_range (int (Suc k))) ys0 wld = (Inl e, wld1)"
      unfolding py_range_Suc batch_loop_append pre Inl by simp
    moreover have "pure_inv f bl ims a bs ys0 wld (Suc k) (Inl e, wld1)"
      using inv Inl by (auto simp: pure_inv_def split: sum.splits)
    ultimately show ?thesis by simp
  next
    case (Inr ys1)
    have "batch_loop ?body (py_range (int (Suc k))) ys0 wld = ?body (int k) ys1 wld1"
      unfolding py_range_Suc batch_loop_append pre Inr by (simp split: prod.splits sum.splits)
    moreover have "pure_inv f bl ims a bs ys0 wld (Suc k) (?body (int k) ys1 wld1)"
      using fw bs len _ inv[unfolded Inr] by (rule pure_inv_step) (use Suc.prems in simp)
    ultimately show ?thesis by simp
  qed
qed

lemma ceiling_nonneg:
  fixes n bs :: int
  assumes "0 < bs" "0 \<le> n"
  shows "0 \<le> \<lceil>(of_int n :: real) / of_int bs\<rceil>"
proof -
  have "(0::real) \<le> of_int n / of_int bs" using assms by simp
  then have "\<lceil>0::real\<rceil> \<le> \<lceil>(of_int n :: real) / of_int bs\<rceil>" by (rule ceiling_mono)
  then show ?thesis by simp
qed

lemma predictions_pure:
  fixes bs :: int
  assumes fw: "forward m = pure_classifier f" and bs: "0 < bs"
    and a: "heap wld ! ims = a" "ims < length (heap wld)"
  shows "fst (predictions m bl ims bs yg wld)
           = collect_rows (batch_result f (config wld) bl a bs)
               (nat \<lceil>(of_int (int (length (imgs a))) :: real) / of_int bs\<rceil>)"
    and "heap (snd (predictions m bl ims bs yg wld)) ! ims = a"
    and "config (snd (predictions m bl ims bs yg wld)) = config wld"
proof -
  define n where "n = int (length (imgs a))"
  define nb where "nb = \<lceil>(of_int n :: real) / of_int bs\<rceil>"
  define ys0 where "ys0 = empty2 yg (nat n) n_classes"
  define rw where "rw = batch_loop (batch_body m bl ims n (dim2 a) (dim3 a) bs) (py_range nb) ys0 wld"
  have nb0: "0 \<le> nb" unfolding nb_def using bs by (intro ceiling_nonneg) (simp_all add: n_def)
  have len: "length ys0 = length (imgs a)" by (simp add: ys0_def empty2_def n_def)
  have pred: "predictions m bl ims bs yg wld = rw"
    using bs by (simp add: predictions_def n_batches_def Let_def a(1) rw_def n_def nb_def ys0_def)
  have "pure_inv f bl ims a bs ys0 wld (nat nb) rw"
    using pure_inv_loop[OF fw bs a len, of "nat nb" bl] nb0
    by (simp add: rw_def n_def[symmetric] nb_def[symmetric])
  then have inv: "heap (snd rw) ! ims = a" "config (snd rw) = config wld"
      "case collect_rows (batch_result f (config wld) bl a bs) (nat nb) of
         Inl e \<Rightarrow> fst rw = Inl e
       | Inr rows \<Rightarrow> length rows = nat (min (int (nat nb) * bs) n)
           \<and> fst rw = Inr (rows @ drop (length rows) ys0)"
    unfolding pure_inv_def n_def by simp_all
  have full: "nat (min (int (nat nb) * bs) n) = length ys0"
    using ceiling_mult_ge[OF bs, of n] nb0 by (simp add: nb_def min_absorb2 len n_def)
  have "fst rw = collect_rows (batch_result f (config wld) bl a bs) (nat nb)"
    using inv(3) full by (auto split: sum.splits)
  then show "fst (predictions m bl ims bs yg wld)
           = collect_rows (batch_result f (config wld) bl a bs)
               (nat \<lceil>(of_int (int (length (imgs a))) :: real) / of_int bs\<rceil>)"
    by (simp add: pred nb_def n_def)
  show "heap (snd (predictions m bl ims bs yg wld)) ! ims = a" using inv(1) by (simp add: pred)
  show "config (snd (predictions m bl ims bs yg wld)) = config wld" using inv(2) by (simp add: pred)
qed

lemma slice_imgs_length:
  assumes "slice_bounds (length (imgs a)) (fst rng) (snd rng) = (l, u)"
  shows "length (imgs (slice_imgs a rng)) = min (u - l) (length (imgs a) - l)"
  using assms by (simp add: slice_imgs_def py_slice_def)

lemma batch_input_count:
  assumes "keeps_count bl"
  shows "length (imgs (batch_input bl w h a rng)) = length (imgs (slice_imgs a rng))"
  using assms by (simp add: batch_input_def keeps_count_def)

lemma batch_input_length:
  fixes bs :: int
  assumes kc: "keeps_count bl" and bs: "0 < bs" and i: "0 \<le> i" "i * bs < int (length (imgs a))"
  shows "length (imgs (batch_input bl w h a (batch_bounds (int (length (imgs a))) bs i)))
       = length (range_rows (length (imgs a)) (batch_bounds (int (length (imgs a))) bs i))"
proof -
  define n where "n = int (length (imgs a))"
  have sb: "slice_bounds (nat n) (i * bs) (min ((i + 1) * bs) n) = (nat (i * bs), nat (min ((i + 1) * bs) n))"
    using bs _ i(1) i(2)[folded n_def] by (rule batch_slice_bounds) (simp add: n_def)
  have le: "nat (min ((i + 1) * bs) n) \<le> nat n" by simp
  have "length (imgs (slice_imgs a (batch_bounds n bs i)))
      = min (nat (min ((i + 1) * bs) n) - nat (i * bs)) (length (imgs a) - nat (i * bs))"
    using sb by (intro slice_imgs_length) (simp add: batch_bounds_def n_def)
  also have "\<dots> = nat (min ((i + 1) * bs) n) - nat (i * bs)"
    using le by (simp add: n_def)
  finally show ?thesis
    using sb by (simp add: batch_input_count[OF kc] range_rows_def batch_bounds_def n_def)
qed

lemma broadcast_to_exact:
  assumes "length y = k" "list_all (\<lambda>row. length row = c) y"
  shows "broadcast_to k c y = Some y"
proof -
  have "map (\<lambda>j. let row = y ! j in if length row = c then row else replicate c (hd row)) [0..<k] = y"
    using assms by (intro nth_equalityI) (simp_all add: list_all_length)
  then show ?thesis using assms by (simp add: broadcast_to_def cong: map_cong)
qed

section \<open>Sums, means and the score of one split\<close>

lemma fadd_NaN_right: "fadd a NaN = NaN"
  by (cases a) simp_all

lemma fsum_Nil: "fsum [] = Fin 0"
  by (simp add: fsum_def)

lemma fsum_Cons: "fsum (x # xs) = fadd x (fsum xs)"
  by (simp add: fsum_def)

lemma fsum_Fin: "fsum (map Fin rs) = Fin (sum_list rs)"
  by (induction rs) (simp_all add: fsum_Nil fsum_Cons)

lemma fsum_NaN: "NaN \<in> set xs \<Longrightarrow> fsum xs = NaN"
  by (induction xs) (auto simp: fsum_Cons fadd_NaN_right)

lemma fmean_Nil: "fmean [] = NaN"
  by (simp add: fmean_def fsum_Nil)

lemma fmean_NaN: "NaN \<in> set xs \<Longrightarrow> fmean xs = NaN"
  by (simp add: fmean_def fsum_NaN)

lemma fmean_Fin:
  assumes "rs \<noteq> []"
  shows "fmean (map Fin rs) = Fin (real_mean rs)"
  using assms by (simp add: fmean_def fsum_Fin real_mean_def)

lemma fstd_Nil: "fstd [] = NaN"
  by (simp add: fstd_def fmean_Nil)

lemma fstd_NaN:
  assumes "NaN \<in> set xs"
  shows "fstd xs = NaN"
proof -
  have m: "fmean xs = NaN" using assms by (rule fmean_NaN)
  have "fsub x NaN = NaN" for x by (simp add: fsub_def fadd_NaN_right)
  then have "map (\<lambda>x. fmul x x) (map (\<lambda>x. fsub x (fmean xs)) xs) = map (\<lambda>x. NaN) xs"
    by (simp add: m)
  moreover have "NaN \<in> set (map (\<lambda>x. NaN) xs)" using assms by auto
  ultimately have "fmean (map (\<lambda>x. fmul x x) (map (\<lambda>x. fsub x (fmean xs)) xs)) = NaN"
    by (simp only: fmean_NaN)
  then show ?thesis by (simp add: fstd_def Let_def)
qed

lemma fstd_Fin:
  assumes "rs \<noteq> []"
  shows "fstd (map Fin rs) = Fin (real_pstd rs)"
proof -
  have m: "fmean (map Fin rs) = Fin (real_mean rs)" using assms by (rule fmean_Fin)
  have sq: "map (\<lambda>x. fmul x x) (map (\<lambda>x. fsub x (Fin (real_mean rs))) (map Fin rs))
      = map Fin (map (\<lambda>x. (x - real_mean rs)\<^sup>2) rs)"
    by (simp add: fsub_def power2_eq_square)
  have ne: "map (\<lambda>x. (x - real_mean rs)\<^sup>2) rs \<noteq> []" using assms by simp
  have nonneg: "0 \<le> sum_list (map (\<lambda>x. (x - real_mean rs)\<^sup>2) rs) / real (length rs)"
    by (intro divide_nonneg_nonneg sum_list_nonneg) auto
  have mean2: "fmean (map Fin (map (\<lambda>x. (x - real_mean rs)\<^sup>2) rs))
      = Fin (sum_list (map (\<lambda>x. (x - real_mean rs)\<^sup>2) rs) / real (length rs))"
    using fmean_Fin[OF ne] by (simp add: real_mean_def)
  have "fstd (map Fin rs)
      = fsqrt (fmean (map (\<lambda>x. fmul x x) (map (\<lambda>x. fsub x (Fin (real_mean rs))) (map Fin rs))))"
    by (simp only: fstd_def Let_def m)
  also have "\<dots> = fsqrt (Fin (sum_list (map (\<lambda>x. (x - real_mean rs)\<^sup>2) rs) / real (length rs)))"
    by (simp only: sq mean2)
  also have "\<dots> = Fin (real_pstd rs)"
    using nonneg by (simp add: real_pstd_def)
  finally show ?thesis .
qed

lemma kl_row_eq:
  assumes "length row = n_classes" "length mg = n_classes"
  shows "fsum (map2 fmul row (map2 fsub (map flog row) (map flog mg))) = spec_kl_row mg row"
proof -
  have "map2 fsub (map flog row) (map flog mg)
      = map (\<lambda>j. fsub (flog (row ! j)) (flog (mg ! j))) [0..<n_classes]"
    using assms by (intro nth_equalityI) simp_all
  then have "map2 fmul row (map2 fsub (map flog row) (map flog mg))
      = map (\<lambda>j. fmul (row ! j) (fsub (flog (row ! j)) (flog (mg ! j)))) [0..<n_classes]"
    using assms by (intro nth_equalityI) simp_all
  then show ?thesis by (simp add: spec_kl_row_def)
qed

lemma part_score_spec:
  assumes "\<forall>row\<in>set part. length row = n_classes"
  shows "part_score part = spec_split_score part"
proof -
  define mg where "mg = spec_marginal part"
  have lmg: "length mg = n_classes" by (simp add: mg_def spec_marginal_def)
  have mean0: "mean_axis0 n_classes part = mg" by (simp add: mean_axis0_def mg_def spec_marginal_def)
  have "mmul part (msub_bcast (mlog part) (mlog (expand_dims0 mg)))
      = map (\<lambda>row. map2 fmul row (map2 fsub (map flog row) (map flog mg))) part"
    by (simp add: mmul_def msub_bcast_def mlog_def expand_dims0_def zip_map2 zip_same_conv_map)
  then have "sum_axis1 (mmul part (msub_bcast (mlog part) (mlog (expand_dims0 mg))))
      = map (\<lambda>row. fsum (map2 fmul row (map2 fsub (map flog row) (map flog mg)))) part"
    by (simp add: sum_axis1_def)
  also have "\<dots> = map (spec_kl_row mg) part"
    using assms lmg by (intro map_cong refl kl_row_eq) simp_all
  finally show ?thesis
    by (simp add: part_score_def Let_def mean0 spec_split_score_def mg_def)
qed

lemma fill_scores_prefix:
  assumes "k \<le> length xs"
  shows "foldl (\<lambda>scores i. scores[nat i := f i]) xs (map int [0..<k])
       = map (\<lambda>i. f (int i)) [0..<k] @ drop k xs"
  using assms
proof (induction k)
  case 0
  show ?case by simp
next
  case (Suc k)
  have "(map (\<lambda>i. f (int i)) [0..<k] @ drop k xs)[k := f (int k)]
      = map (\<lambda>i. f (int i)) [0..<k] @ (drop k xs)[0 := f (int k)]"
    by (simp add: list_update_append)
  also have "(drop k xs)[0 := f (int k)] = f (int k) # drop (Suc k) xs"
    using Suc.prems by (simp add: Cons_nth_drop_Suc[symmetric])
  finally show ?case using Suc by simp
qed

lemma fill_scores_eq:
  assumes "length scores0 = nat splits"
  shows "fill_scores ys n splits scores0 = map (split_score ys n splits) (py_range splits)"
  using fill_scores_prefix[of "nat splits" scores0 "split_score ys n splits"] assms
  by (simp add: fill_scores_def py_range_def)

lemma aggregate_eq:
  "aggregate sg ys n splits =
     (if splits < 0 then Inl ValueError
      else Inr (fmean (map (split_score ys n splits) (py_range splits)),
                fstd (map (split_score ys n splits) (py_range splits))))"
  by (simp add: aggregate_def empty1_def fill_scores_eq Let_def)

lemma split_part_subset: "set (split_part ys n splits i) \<subseteq> set ys"
  by (auto simp: split_part_def py_slice_def split: prod.splits dest: in_set_takeD in_set_dropD)

section \<open>Rows of the batches\<close>

lemma batch_rows_eq:
  assumes "0 < bs" "0 \<le> n" "0 \<le> i" "i * bs < n"
  shows "batch_rows n bs i = [nat (i * bs)..<nat (min ((i + 1) * bs) n)]"
  using batch_slice_bounds[OF assms]
  by (simp add: batch_rows_def range_rows_def batch_bounds_def)

lemma batch_rows_prefix:
  fixes n bs :: int
  assumes bs: "0 < bs" and n: "0 \<le> n"
    and k: "int k \<le> \<lceil>(of_int n :: real) / of_int bs\<rceil>"
  shows "concat (map (batch_rows n bs) (py_range (int k))) = [0..<nat (min (int k * bs) n)]"
  using k
proof (induction k)
  case 0
  show ?case by (simp add: py_range_def)
next
  case (Suc k)
  have lt: "int k * bs < n" using bs Suc.prems by (intro less_ceiling_mult) simp_all
  have rows: "batch_rows n bs (int k) = [nat (int k * bs)..<nat (min ((int k + 1) * bs) n)]"
    using bs n _ lt by (rule batch_rows_eq) simp
  have pre: "concat (map (batch_rows n bs) (py_range (int k))) = [0..<nat (int k * bs)]"
    using Suc lt by (simp add: min_absorb1)
  have le: "nat (int k * bs) \<le> nat (min ((int k + 1) * bs) n)"
    using bs lt by (simp add: algebra_simps nat_le_iff)
  have "[0..<nat (int k * bs)] @ [nat (int k * bs)..<nat (min ((int k + 1) * bs) n)]
      = [0..<nat (min ((int k + 1) * bs) n)]"
    using le by (metis le0 le_Suc_ex upt_add_eq_append)
  then show ?case
    unfolding py_range_Suc by (simp add: pre rows add.commute)
qed

section \<open>Properties of a run\<close>

lemma predictions_driver_inv:
  fixes bs :: int
  assumes bs: "0 < bs" and n: "n = int (length (imgs (heap wld ! ims)))"
  shows "driver_inv n bs (empty2 yg (nat n) n_classes) wld
           (nat \<lceil>(of_int n :: real) / of_int bs\<rceil>) (predictions m bl ims bs yg wld)"
    and "nat (min (int (nat \<lceil>(of_int n :: real) / of_int bs\<rceil>) * bs) n) = nat n"
    and "int (nat \<lceil>(of_int n :: real) / of_int bs\<rceil>) = \<lceil>(of_int n :: real) / of_int bs\<rceil>"
proof -
  define nb where "nb = \<lceil>(of_int n :: real) / of_int bs\<rceil>"
  have n0: "0 \<le> n" using n by simp
  have nb0: "0 \<le> nb" unfolding nb_def using bs n0 by (rule ceiling_nonneg)
  then have knb: "int (nat nb) = nb" by simp
  let ?ys0 = "empty2 yg (nat n) n_classes"
  have loop: "predictions m bl ims bs yg wld =
      batch_loop (batch_body m bl ims n (dim2 (heap wld ! ims)) (dim3 (heap wld ! ims)) bs)
        (py_range nb) ?ys0 wld"
    using bs by (simp add: predictions_def n_batches_def Let_def n nb_def)
  have "driver_inv n bs ?ys0 wld (nat nb)
      (batch_loop (batch_body m bl ims n (dim2 (heap wld ! ims)) (dim3 (heap wld ! ims)) bs)
        (py_range (int (nat nb))) ?ys0 wld)"
  proof (rule driver_inv_loop[OF bs n0])
    show "length ?ys0 = nat n" by (simp add: empty2_def)
    show "int (nat nb) \<le> \<lceil>(of_int n :: real) / of_int bs\<rceil>" using nb0 unfolding nb_def by simp
  qed
  then have "driver_inv n bs ?ys0 wld (nat nb)
      (batch_loop (batch_body m bl ims n (dim2 (heap wld ! ims)) (dim3 (heap wld ! ims)) bs)
        (py_range nb) ?ys0 wld)"
    unfolding knb .
  then show "driver_inv n bs ?ys0 wld (nat \<lceil>(of_int n :: real) / of_int bs\<rceil>) (predictions m bl ims bs yg wld)"
    unfolding loop nb_def .
  show "nat (min (int (nat \<lceil>(of_int n :: real) / of_int bs\<rceil>) * bs) n) = nat n"
    using ceiling_mult_ge[OF bs, of n] knb by (simp add: nb_def min_absorb2)
  show "int (nat \<lceil>(of_int n :: real) / of_int bs\<rceil>) = \<lceil>(of_int n :: real) / of_int bs\<rceil>"
    using knb by (simp add: nb_def)
qed

lemma predictions_success:
  fixes bs :: int
  assumes bs: "0 < bs" and n: "n = int (length (imgs (heap wld ! ims)))"
    and run: "predictions m bl ims bs yg wld = (Inr ys, wld')"
  shows "\<exists>new. calls wld' = calls wld @ new
      \<and> int (length new) = \<lceil>(of_int n :: real) / of_int bs\<rceil>
      \<and> map call_range new = map (batch_bounds n bs) (py_range \<lceil>(of_int n :: real) / of_int bs\<rceil>)
      \<and> length ys = nat n
      \<and> ys = concat (map (call_rows (nat n)) new)
      \<and> (\<forall>c\<in>set new.
            length (call_rows (nat n) c) = length (range_rows (nat n) (call_range c))
          \<and> list_all (\<lambda>row. length row = n_classes) (call_rows (nat n) c))"
proof -
  define nb where "nb = \<lceil>(of_int n :: real) / of_int bs\<rceil>"
  note inv = predictions_driver_inv(1)[OF bs n, where yg = yg and m = m and bl = bl,
      unfolded run, folded nb_def]
    predictions_driver_inv(2,3)[OF bs n, folded nb_def]
  from inv(1) obtain new where
    new: "calls wld' = calls wld @ new" "length new = nat nb"
      "map call_range new = map (batch_bounds n bs) (py_range (int (length new)))" and
    ys: "length ys = nat n"
      "take (nat (min (int (nat nb) * bs) n)) ys = concat (map (call_rows (nat n)) new)" and
    rows: "\<forall>c\<in>set new.
         length (call_rows (nat n) c) = length (range_rows (nat n) (call_range c))
       \<and> list_all (\<lambda>row. length row = n_classes) (call_rows (nat n) c)"
    by (auto simp: driver_inv_def)
  have c1: "int (length new) = nb" using new(2) inv(3) by simp
  have c2: "map call_range new = map (batch_bounds n bs) (py_range nb)"
    using new(3) c1 by simp
  have "take (nat n) ys = concat (map (call_rows (nat n)) new)"
    using ys(2) unfolding inv(2) .
  then have c5: "ys = concat (map (call_rows (nat n)) new)"
    using ys(1) by simp
  show ?thesis
    unfolding nb_def[symmetric] using new(1) c1 c2 ys(1) c5 rows by blast
qed

lemma predictions_rows:
  fixes bs :: int
  assumes bs: "0 < bs" and run: "predictions m bl ims bs yg wld = (Inr ys, wld')"
  shows "length ys = length (imgs (heap wld ! ims))" and "\<forall>row\<in>set ys. length row = n_classes"
proof -
  from predictions_success[OF bs refl run] obtain new where
    ys: "length ys = length (imgs (heap wld ! ims))"
      "ys = concat (map (call_rows (length (imgs (heap wld ! ims)))) new)" and
    rows: "\<forall>c\<in>set new. list_all (\<lambda>row. length row = n_classes)
             (call_rows (length (imgs (heap wld ! ims))) c)"
    by auto
  show "length ys = length (imgs (heap wld ! ims))" by (rule ys(1))
  show "\<forall>row\<in>set ys. length row = n_classes"
    using rows unfolding ys(2) by (auto simp: list_all_iff)
qed

lemma batch_loop_rule:
  assumes step: "\<And>i ys w. I w \<Longrightarrow> I (snd (body i ys w))" and init: "I wld"
  shows "I (snd (batch_loop body js ys wld))"
  using init
proof (induction js arbitrary: ys wld)
  case Nil
  then show ?case by simp
next
  case (Cons i js)
  obtain r w1 where b: "body i ys wld = (r, w1)" by (cases "body i ys wld")
  have w1: "I w1" using step[OF Cons.prems, of i ys] b by simp
  show ?case
  proof (cases r)
    case (Inl e)
    then show ?thesis using b w1 by simp
  next
    case (Inr ys1)
    then show ?thesis using b Cons.IH[OF w1] by simp
  qed
qed

lemma predictions_rule:
  assumes step: "\<And>i ys wl. I wl \<Longrightarrow>
      I (snd (batch_body m bl ims (int (length (imgs (heap wld ! ims))))
               (dim2 (heap wld ! ims)) (dim3 (heap wld ! ims)) bs i ys wl))"
    and init: "I wld"
  shows "I (snd (predictions m bl ims bs yg wld))"
proof (cases "n_batches (int (length (imgs (heap wld ! ims)))) bs")
  case (Inl e)
  then show ?thesis using init by (simp add: predictions_def Let_def)
next
  case (Inr nb)
  then show ?thesis
    using batch_loop_rule[where I = I, OF step init]
    by (simp add: predictions_def Let_def)
qed

lemma inception_score_world:
  "snd (inception_score m bl ims bs splits yg sg wld) = snd (predictions m bl ims bs yg wld)"
  by (simp add: inception_score_def split: prod.splits sum.splits)

lemma batch_body_world:
  "snd (batch_body m bl ims n w h bs i ys wl)
     = wl\<lparr>heap := step_heap m bl ims n w h bs i wl,
          calls := calls wl @ [step_call m bl ims n w h bs i wl]\<rparr>"
  by (simp add: batch_body_eq Let_def)

lemma using_config_restores:
  "config (snd (using_config name val body w)) name = config w name"
  by (simp add: using_config_def Let_def split: prod.splits)

lemma inference_config_flags:
  "inference_config cfg ''train'' = False"
  "inference_config cfg ''enable_backprop'' = False"
  "k \<noteq> ''train'' \<Longrightarrow> k \<noteq> ''enable_backprop'' \<Longrightarrow> inference_config cfg k = cfg k"
  by (simp_all add: inference_config_def)

lemma frame_input_invariant:
  assumes ao: "allocates_only (forward m)" and ims: "ims < length (heap wld)"
  shows "take (length (heap wld)) (heap (snd (predictions m bl ims bs yg wld))) = heap wld
    \<and> (\<exists>new. calls (snd (predictions m bl ims bs yg wld)) = calls wld @ new
          \<and> (\<forall>c\<in>set new. call_input c
                = batch_input bl (dim2 (heap wld ! ims)) (dim3 (heap wld ! ims))
                    (heap wld ! ims) (call_range c)))"
proof -
  define a where "a = heap wld ! ims"
  define I where "I = (\<lambda>w :: world. take (length (heap wld)) (heap w) = heap wld
      \<and> (\<exists>new. calls w = calls wld @ new
            \<and> (\<forall>c\<in>set new. call_input c = batch_input bl (dim2 a) (dim3 a) a (call_range c))))"
  have step: "I (snd (batch_body m bl ims n (dim2 a) (dim3 a) bs i ys wl))" if "I wl" for n i ys wl
  proof -
    let ?c = "step_call m bl ims n (dim2 a) (dim3 a) bs i wl"
    let ?hp = "step_heap m bl ims n (dim2 a) (dim3 a) bs i wl"
    from that obtain new where pre: "take (length (heap wld)) (heap wl) = heap wld"
      and new: "calls wl = calls wld @ new"
        "\<forall>c\<in>set new. call_input c = batch_input bl (dim2 a) (dim3 a) a (call_range c)"
      by (auto simp: I_def)
    have cell: "heap wl ! ims = a" using take_prefix_nth(1)[OF pre ims] by (simp add: a_def)
    have "take (length (heap wl)) ?hp = heap wl" using ao by (rule step_heap_prefix)
    with pre have h: "take (length (heap wld)) ?hp = heap wld" by (rule take_prefix_trans)
    have inp: "call_input ?c = batch_input bl (dim2 a) (dim3 a) a (call_range ?c)"
      by (simp add: step_call_input step_call_simps cell)
    show ?thesis unfolding I_def
    proof (intro conjI exI[of _ "new @ [?c]"])
      show "take (length (heap wld)) (heap (snd (batch_body m bl ims n (dim2 a) (dim3 a) bs i ys wl)))
          = heap wld"
        using h by (simp add: batch_body_world)
      show "calls (snd (batch_body m bl ims n (dim2 a) (dim3 a) bs i ys wl)) = calls wld @ new @ [?c]"
        by (simp add: batch_body_world new(1))
      show "\<forall>c\<in>set (new @ [?c]). call_input c = batch_input bl (dim2 a) (dim3 a) a (call_range c)"
        using new(2) inp by simp
    qed
  qed
  have "I (snd (predictions m bl ims bs yg wld))"
  proof (rule predictions_rule[where I = I])
    show "I wld" by (simp add: I_def)
  next
    fix i ys wl
    assume "I wl"
    then show "I (snd (batch_body m bl ims (int (length (imgs (heap wld ! ims))))
               (dim2 (heap wld ! ims)) (dim3 (heap wld ! ims)) bs i ys wl))"
      unfolding a_def[symmetric] by (rule step)
  qed
  then show ?thesis unfolding I_def a_def .
qed

section \<open>Constant rows, zero entries and the aggregate\<close>

lemma fsum_replicate_Fin: "fsum (replicate k (Fin r)) = Fin (real k * r)"
  by (induction k) (simp_all add: fsum_Nil fsum_Cons algebra_simps)

lemma fmean_replicate_Fin:
  assumes "0 < k"
  shows "fmean (replicate k (Fin r)) = Fin r"
  using assms by (simp add: fmean_def fsum_replicate_Fin)

lemma positive_nth:
  assumes "\<forall>x\<in>set p. \<exists>r>0. x = Fin r" "c < length p"
  shows "\<exists>r>0. p ! c = Fin r"
  using assms by (meson nth_mem)

lemma const_marginal:
  assumes len: "length p = n_classes" and pos: "\<forall>x\<in>set p. \<exists>r>0. x = Fin r" and k: "0 < k"
  shows "spec_marginal (replicate k p) = p"
proof -
  have "fmean (map (\<lambda>row. row ! c) (replicate k p)) = p ! c" if "c < n_classes" for c
  proof -
    from positive_nth[OF pos] that len obtain r where "p ! c = Fin r" by auto
    then show ?thesis using k by (simp add: fmean_replicate_Fin)
  qed
  then have "spec_marginal (replicate k p) = map (\<lambda>c. p ! c) [0..<n_classes]"
    unfolding spec_marginal_def by (intro map_cong refl) simp
  also have "\<dots> = p" using map_nth[of p] by (simp only: len)
  finally show ?thesis .
qed

lemma const_kl_row:
  assumes len: "length p = n_classes" and pos: "\<forall>x\<in>set p. \<exists>r>0. x = Fin r"
  shows "spec_kl_row p p = Fin 0"
proof -
  have "fmul (p ! c) (fsub (flog (p ! c)) (flog (p ! c))) = Fin 0" if "c < n_classes" for c
  proof -
    from positive_nth[OF pos] that len obtain r where "0 < r" "p ! c = Fin r" by auto
    then show ?thesis by (simp add: fsub_def)
  qed
  then have "map (\<lambda>c. fmul (p ! c) (fsub (flog (p ! c)) (flog (p ! c)))) [0..<n_classes]
      = map (\<lambda>c. Fin 0) [0..<n_classes]"
    by (intro map_cong refl) simp
  also have "\<dots> = replicate n_classes (Fin 0)" by (simp add: map_replicate_trivial)
  finally show ?thesis by (simp add: spec_kl_row_def fsum_replicate_Fin)
qed

lemma const_part_score:
  assumes len: "length p = n_classes" and pos: "\<forall>x\<in>set p. \<exists>r>0. x = Fin r" and k: "0 < k"
  shows "part_score (replicate k p) = Fin 1"
proof -
  have "part_score (replicate k p) = spec_split_score (replicate k p)"
    using len by (intro part_score_spec) simp
  also have "\<dots> = fexp (fmean (replicate k (Fin 0)))"
    by (simp add: spec_split_score_def const_marginal[OF len pos k] const_kl_row[OF len pos])
  also have "\<dots> = Fin 1" using k by (simp add: fmean_replicate_Fin)
  finally show ?thesis .
qed

lemma part_score_Nil: "part_score [] = NaN"
  by (simp add: part_score_def mmul_def msub_bcast_def mlog_def sum_axis1_def fmean_Nil Let_def)

lemma zero_term_NaN: "fmul (Fin 0) (fsub NInf x) = NaN"
  by (cases x) (simp_all add: fsub_def)

lemma zero_kl_row:
  assumes "c < n_classes" "row ! c = Fin 0"
  shows "spec_kl_row mg row = NaN"
proof -
  have "fmul (row ! c) (fsub (flog (row ! c)) (flog (mg ! c))) = NaN"
    using assms(2) by (simp add: zero_term_NaN)
  then have "NaN \<in> set (map (\<lambda>c. fmul (row ! c) (fsub (flog (row ! c)) (flog (mg ! c)))) [0..<n_classes])"
    using assms(1) by (metis (mono_tags, lifting) atLeastLessThan_iff image_eqI le0 set_map set_upt)
  then show ?thesis unfolding spec_kl_row_def by (rule fsum_NaN)
qed

lemma zero_part_score:
  assumes rows: "\<forall>row\<in>set part. length row = n_classes"
    and row: "row \<in> set part" and c: "c < n_classes" "row ! c = Fin 0"
  shows "part_score part = NaN"
proof -
  have "spec_kl_row (spec_marginal part) row = NaN" using c by (rule zero_kl_row)
  then have "NaN \<in> set (map (spec_kl_row (spec_marginal part)) part)"
    using row by (metis image_eqI set_map)
  then have "fmean (map (spec_kl_row (spec_marginal part)) part) = NaN" by (rule fmean_NaN)
  then show ?thesis using part_score_spec[OF rows] by (simp add: spec_split_score_def)
qed

lemma real_mean_replicate:
  assumes "0 < k"
  shows "real_mean (replicate k r) = r"
  using assms by (simp add: real_mean_def sum_list_replicate)

lemma real_pstd_replicate:
  assumes "0 < k"
  shows "real_pstd (replicate k r) = 0"
  using assms by (simp add: real_pstd_def real_mean_replicate map_replicate_const sum_list_replicate)

lemma aggregate_all_one:
  assumes "1 \<le> splits" and "\<forall>i\<in>set (py_range splits). split_score ys n splits i = Fin 1"
  shows "aggregate sg ys n splits = Inr (Fin 1, Fin 0)"
proof -
  have k: "0 < nat splits" using assms(1) by simp
  have "map (split_score ys n splits) (py_range splits) = map (\<lambda>i. Fin 1) (py_range splits)"
    using assms(2) by (intro map_cong refl) simp
  also have "\<dots> = map Fin (replicate (nat splits) 1)"
    by (simp add: py_range_def map_replicate_const)
  finally have sc: "map (split_score ys n splits) (py_range splits) = map Fin (replicate (nat splits) 1)" .
  have ne: "replicate (nat splits) (1::real) \<noteq> []" using k by simp
  have m: "fmean (map Fin (replicate (nat splits) 1)) = Fin 1"
    using fmean_Fin[OF ne] by (simp only: real_mean_replicate[OF k])
  have d: "fstd (map Fin (replicate (nat splits) 1)) = Fin 0"
    using fstd_Fin[OF ne] by (simp only: real_pstd_replicate[OF k])
  have nn: "\<not> splits < 0" using assms(1) by simp
  show ?thesis unfolding aggregate_eq sc m d using nn by simp
qed

lemma aggregate_NaN:
  assumes "0 \<le> splits" and "splits = 0 \<or> (\<exists>i\<in>set (py_range splits). split_score ys n splits i = NaN)"
  shows "aggregate sg ys n splits = Inr (NaN, NaN)"
proof (cases "splits = 0")
  case True
  then show ?thesis by (simp add: aggregate_eq py_range_def fmean_Nil fstd_Nil)
next
  case False
  then obtain i where "i \<in> set (py_range splits)" "split_score ys n splits i = NaN"
    using assms(2) by auto
  then have "NaN \<in> set (map (split_score ys n splits) (py_range splits))"
    by (metis image_eqI set_map)
  then show ?thesis using assms(1) by (simp add: aggregate_eq fmean_NaN fstd_NaN)
qed

section \<open>Runs with a classifier that returns the same row for every image\<close>

lemma inception_score_result:
  "fst (inception_score m bl ims bs splits yg sg wld) =
     (case fst (predictions m bl ims bs yg wld) of
        Inl e \<Rightarrow> Inl e
      | Inr ys \<Rightarrow> aggregate sg ys (int (length (imgs (heap wld ! ims)))) splits)"
  by (simp add: inception_score_def split: prod.splits sum.splits)

lemma const_batch_result:
  fixes bs :: int
  assumes kc: "keeps_count bl" and bs: "0 < bs" and i: "0 \<le> i" "i * bs < int (length (imgs a))"
    and p: "length p = n_classes"
  shows "batch_result (const_classifier p) cfg bl a bs i
       = Inr (replicate (length (range_rows (length (imgs a)) (batch_bounds (int (length (imgs a))) bs i))) p)"
proof -
  let ?rng = "batch_bounds (int (length (imgs a))) bs i"
  let ?k = "length (range_rows (length (imgs a)) ?rng)"
  have "const_classifier p (inference_config cfg) (batch_input bl (dim2 a) (dim3 a) a ?rng)
      = Inr (replicate ?k p)"
    using batch_input_length[OF kc bs i] by (simp add: const_classifier_def map_replicate_const)
  moreover have "broadcast_to ?k n_classes (replicate ?k p) = Some (replicate ?k p)"
    using p by (intro broadcast_to_exact) (simp_all add: list_all_iff)
  ultimately show ?thesis by (simp add: batch_result_def Let_def)
qed

lemma n_classes_not_1: "n_classes \<noteq> 1" "0 < n_classes" "1 < n_classes"
  by (simp_all add: n_classes_def)

lemma broadcast_to_column:
  "broadcast_to k n_classes (replicate k [x]) = Some (replicate k (replicate n_classes x))"
proof -
  have "map (\<lambda>j. let row = replicate k [x] ! j
                 in if length row = n_classes then row else replicate n_classes (hd row)) [0..<k]
      = map (\<lambda>j. replicate n_classes x) [0..<k]"
    using n_classes_not_1(1) by (intro map_cong refl) simp
  then show ?thesis by (simp add: broadcast_to_def list_all_iff map_replicate_trivial cong: map_cong)
qed

lemma column_batch_result:
  fixes bs :: int
  assumes kc: "keeps_count bl" and bs: "0 < bs" and i: "0 \<le> i" "i * bs < int (length (imgs a))"
  shows "batch_result (const_classifier [x]) cfg bl a bs i
       = Inr (replicate (length (range_rows (length (imgs a)) (batch_bounds (int (length (imgs a))) bs i)))
                (replicate n_classes x))"
proof -
  let ?rng = "batch_bounds (int (length (imgs a))) bs i"
  let ?k = "length (range_rows (length (imgs a)) ?rng)"
  have "const_classifier [x] (inference_config cfg) (batch_input bl (dim2 a) (dim3 a) a ?rng)
      = Inr (replicate ?k [x])"
    using batch_input_length[OF kc bs i] by (simp add: const_classifier_def map_replicate_const)
  then show ?thesis by (simp add: batch_result_def Let_def broadcast_to_column)
qed

lemma collect_rows_const:
  fixes bs :: int
  assumes g: "\<And>i. 0 \<le> i \<Longrightarrow> i * bs < n \<Longrightarrow> \<exists>j. g i = Inr (replicate j p)"
    and bs: "0 < bs" and k: "int k \<le> \<lceil>(of_int n :: real) / of_int bs\<rceil>"
  shows "\<exists>j. collect_rows g k = Inr (replicate j p)"
  using k
proof (induction k)
  case 0
  show ?case by simp
next
  case (Suc k)
  then obtain j where j: "collect_rows g k = Inr (replicate j p)" by auto
  have "int k * bs < n" using bs Suc.prems by (intro less_ceiling_mult) simp_all
  then obtain j' where "g (int k) = Inr (replicate j' p)" using g[of "int k"] by auto
  then have "collect_rows g (Suc k) = Inr (replicate (j + j') p)"
    by (simp add: j replicate_add)
  then show ?case by blast
qed

lemma predictions_const:
  fixes bs :: int
  assumes fw: "forward m = pure_classifier f" and bs: "0 < bs" and ims: "ims < length (heap wld)"
    and g: "\<And>i. 0 \<le> i \<Longrightarrow> i * bs < int (length (imgs (heap wld ! ims))) \<Longrightarrow>
              \<exists>j. batch_result f (config wld) bl (heap wld ! ims) bs i = Inr (replicate j p)"
  shows "fst (predictions m bl ims bs yg wld) = Inr (replicate (length (imgs (heap wld ! ims))) p)"
proof -
  let ?n = "length (imgs (heap wld ! ims))"
  let ?nb = "nat \<lceil>(of_int (int ?n) :: real) / of_int bs\<rceil>"
  have nb: "int ?nb \<le> \<lceil>(of_int (int ?n) :: real) / of_int bs\<rceil>"
    using ceiling_nonneg[OF bs, of "int ?n"] by simp
  from collect_rows_const[where g = "batch_result f (config wld) bl (heap wld ! ims) bs", OF g bs nb]
  obtain j where j: "collect_rows (batch_result f (config wld) bl (heap wld ! ims) bs) ?nb
      = Inr (replicate j p)" by blast
  have res: "fst (predictions m bl ims bs yg wld) = Inr (replicate j p)"
    using predictions_pure(1)[OF fw bs refl ims, of bl yg] j by simp
  then have "predictions m bl ims bs yg wld = (Inr (replicate j p), snd (predictions m bl ims bs yg wld))"
    by (metis prod.collapse)
  then have "length (replicate j p) = ?n" by (rule predictions_rows(1)[OF bs])
  then show ?thesis using res by simp
qed

lemma split_part_replicate:
  "split_part (replicate k p) n splits i = replicate (length (split_part (replicate k p) n splits i)) p"
proof -
  have "\<forall>row\<in>set (split_part (replicate k p) n splits i). row = p"
    using split_part_subset[of "replicate k p" n splits i] by auto
  then show ?thesis by (simp add: replicate_length_same)
qed

lemma split_part_nonempty:
  fixes N S s :: int
  assumes S: "1 \<le> S" "S \<le> N" and s: "s \<in> set (py_range S)" and len: "length ys = nat N"
  shows "0 < length (split_part ys N S s)"
proof -
  have S0: "0 < S" and N0: "0 \<le> N" using S by simp_all
  from s have s': "0 \<le> s" "s < S" by (auto simp: py_range_def)
  have lo: "0 \<le> s * N div S" using S0 N0 s'(1) by (rule split_lo_nonneg)
  have hi: "(s + 1) * N div S \<le> N" using S0 N0 s'(2) by (rule split_hi_le)
  have "0 < N div S" using S0 S(2) by (simp add: pos_imp_zdiv_pos_iff)
  then have "1 \<le> N div S" by simp
  then have gap: "s * N div S < (s + 1) * N div S" using split_size[OF S0 N0, of s] by linarith
  have "length (split_part ys N S s)
      = min (length ys - nat (s * N div S)) (nat ((s + 1) * N div S) - nat (s * N div S))"
    using split_part_eq[OF S0 N0 s' len] by simp
  then show ?thesis using gap lo hi len by simp
qed

lemma predictions_negative:
  fixes bs :: int
  assumes "bs < 0"
  shows "predictions m bl ims bs yg wld
       = (Inr (empty2 yg (length (imgs (heap wld ! ims))) n_classes), wld)"
proof -
  let ?n = "int (length (imgs (heap wld ! ims)))"
  have "(of_int ?n :: real) / of_int bs \<le> 0" using assms by (simp add: divide_nonneg_neg)
  then have "\<lceil>(of_int ?n :: real) / of_int bs\<rceil> \<le> \<lceil>0::real\<rceil>" by (rule ceiling_mono)
  then have "py_range \<lceil>(of_int ?n :: real) / of_int bs\<rceil> = []" by (simp add: py_range_def)
  then show ?thesis using assms by (simp add: predictions_def n_batches_def Let_def)
qed

lemma start_world_simps:
  "heap (start_world k) = [blank_images k]"
  "heap (start_world k) ! 0 = blank_images k"
  "0 < length (heap (start_world k))"
  "length (imgs (blank_images k)) = k"
  "config (start_world k) = (\<lambda>name. True)"
  "calls (start_world k) = []"
  "dim2 (blank_images k) = 299" "dim3 (blank_images k) = 299"
  by (simp_all add: start_world_def blank_images_def)

lemma const_model_simps:
  "forward (const_model p) = pure_classifier (const_classifier p)"
  "xp (const_model p) = NumPy"
  by (simp_all add: const_model_def)

lemma keeps_count_no_resize: "keeps_count no_resize"
  by (simp add: keeps_count_def no_resize_def)

lemma uniform_simps:
  "length uniform = n_classes"
  "\<forall>x\<in>set uniform. \<exists>r>0. x = Fin r"
proof -
  show "length uniform = n_classes" by (simp add: uniform_def)
  have "\<exists>r>0. Fin (1 / 1008) = Fin r" by (intro exI[of _ "1 / 1008"]) simp
  then show "\<forall>x\<in>set uniform. \<exists>r>0. x = Fin r" by (simp add: uniform_def)
qed

lemma one_hot_simps:
  "length one_hot = n_classes"
  "one_hot ! 1 = Fin 0"
  using n_classes_not_1 by (simp_all add: one_hot_def)

lemma const_run:
  fixes bs :: int
  assumes fw: "forward m = pure_classifier (const_classifier p)" and p: "length p = n_classes"
    and kc: "keeps_count bl" and bs: "0 < bs" and ims: "ims < length (heap wld)"
  shows "fst (predictions m bl ims bs yg wld) = Inr (replicate (length (imgs (heap wld ! ims))) p)"
  using fw bs ims
proof (rule predictions_const)
  fix i :: int
  assume "0 \<le> i" "i * bs < int (length (imgs (heap wld ! ims)))"
  then show "\<exists>j. batch_result (const_classifier p) (config wld) bl (heap wld ! ims) bs i
      = Inr (replicate j p)"
    using const_batch_result[OF kc bs _ _ p] by blast
qed

lemma column_run:
  fixes bs :: int
  assumes fw: "forward m = pure_classifier (const_classifier [x])"
    and kc: "keeps_count bl" and bs: "0 < bs" and ims: "ims < length (heap wld)"
  shows "fst (predictions m bl ims bs yg wld)
       = Inr (replicate (length (imgs (heap wld ! ims))) (replicate n_classes x))"
  using fw bs ims
proof (rule predictions_const)
  fix i :: int
  assume "0 \<le> i" "i * bs < int (length (imgs (heap wld ! ims)))"
  then show "\<exists>j. batch_result (const_classifier [x]) (config wld) bl (heap wld ! ims) bs i
      = Inr (replicate j (replicate n_classes x))"
    using column_batch_result[OF kc bs] by blast
qed

lemma const_scores:
  fixes splits :: int
  assumes p: "length p = n_classes" "\<forall>x\<in>set p. \<exists>r>0. x = Fin r"
    and sp: "1 \<le> splits" "splits \<le> int k" and i: "i \<in> set (py_range splits)"
  shows "\<exists>j>0. split_part (replicate k p) (int k) splits i = replicate j p"
    and "split_score (replicate k p) (int k) splits i = Fin 1"
proof -
  define j where "j = length (split_part (replicate k p) (int k) splits i)"
  have j0: "0 < j" unfolding j_def using sp i by (rule split_part_nonempty) simp
  have part: "split_part (replicate k p) (int k) splits i = replicate j p"
    unfolding j_def by (rule split_part_replicate)
  show "\<exists>j>0. split_part (replicate k p) (int k) splits i = replicate j p"
    using j0 part by blast
  show "split_score (replicate k p) (int k) splits i = Fin 1"
    unfolding split_score_def part using p j0 by (rule const_part_score)
qed

lemma zero_scores:
  assumes p: "length p = n_classes" and c: "c < n_classes" "p ! c = Fin 0"
  shows "split_score (replicate k p) n splits i = NaN"
proof (cases "split_part (replicate k p) n splits i = []")
  case True
  then show ?thesis by (simp add: split_score_def part_score_Nil)
next
  case False
  define j where "j = length (split_part (replicate k p) n splits i)"
  have part: "split_part (replicate k p) n splits i = replicate j p"
    unfolding j_def by (rule split_part_replicate)
  have j0: "0 < j" using False by (simp add: j_def)
  have "part_score (replicate j p) = NaN"
  proof (rule zero_part_score)
    show "\<forall>row\<in>set (replicate j p). length row = n_classes" using p by simp
    show "p \<in> set (replicate j p)" using j0 by simp
    show "c < n_classes" by (rule c(1))
    show "p ! c = Fin 0" by (rule c(2))
  qed
  then show ?thesis by (simp add: split_score_def part)
qed

lemma zero_run:
  fixes bs :: int
  assumes fw: "forward m = pure_classifier (const_classifier p)" and p: "length p = n_classes"
    and c: "c < n_classes" "p ! c = Fin 0"
    and kc: "keeps_count bl" and bs: "0 < bs" and ims: "ims < length (heap wld)"
    and sp: "0 \<le> splits"
  shows "fst (inception_score m bl ims bs splits yg sg wld) = Inr (NaN, NaN)"
proof -
  let ?n = "length (imgs (heap wld ! ims))"
  have "aggregate sg (replicate ?n p) (int ?n) splits = Inr (NaN, NaN)"
  proof (rule aggregate_NaN[OF sp])
    show "splits = 0 \<or> (\<exists>i\<in>set (py_range splits). split_score (replicate ?n p) (int ?n) splits i = NaN)"
    proof (cases "splits = 0")
      case True
      then show ?thesis by simp
    next
      case False
      then have "0 \<in> set (py_range splits)" using sp by (auto simp: py_range_def image_iff)
      moreover have "split_score (replicate ?n p) (int ?n) splits 0 = NaN"
        using p c by (rule zero_scores)
      ultimately show ?thesis by blast
    qed
  qed
  then show ?thesis
    by (simp add: inception_score_result const_run[OF fw p kc bs ims])
qed

lemma one_run:
  fixes bs splits :: int
  assumes run: "fst (predictions m bl ims bs yg wld) = Inr (replicate (length (imgs (heap wld ! ims))) p)"
    and p: "length p = n_classes" "\<forall>x\<in>set p. \<exists>r>0. x = Fin r"
    and sp: "1 \<le> splits" "splits \<le> int (length (imgs (heap wld ! ims)))"
  shows "fst (inception_score m bl ims bs splits yg sg wld) = Inr (Fin 1, Fin 0)"
proof -
  let ?n = "length (imgs (heap wld ! ims))"
  have "aggregate sg (replicate ?n p) (int ?n) splits = Inr (Fin 1, Fin 0)"
    using sp(1)
  proof (rule aggregate_all_one)
    show "\<forall>i\<in>set (py_range splits). split_score (replicate ?n p) (int ?n) splits i = Fin 1"
      using const_scores(2)[OF p sp] by blast
  qed
  then show ?thesis by (simp add: inception_score_result run)
qed

lemma splits_unchecked:
  fixes bs :: int
  assumes bs: "0 < bs" and n: "n = int (length (imgs (heap wld ! ims)))"
    and run: "predictions m bl ims bs yg wld = (Inr ys, wld')"
  shows "snd (inception_score m bl ims bs splits yg sg wld) = wld'"
    and "int (length (calls wld')) = int (length (calls wld)) + \<lceil>(of_int n :: real) / of_int bs\<rceil>"
    and "splits < 0 \<Longrightarrow> fst (inception_score m bl ims bs splits yg sg wld) = Inl ValueError"
    and "0 \<le> splits \<Longrightarrow> splits = 0 \<or> n < splits \<Longrightarrow>
           fst (inception_score m bl ims bs splits yg sg wld) = Inr (NaN, NaN)"
proof -
  show "snd (inception_score m bl ims bs splits yg sg wld) = wld'"
    by (simp add: inception_score_world run)
  from predictions_success[OF bs n run] obtain new where
    "calls wld' = calls wld @ new" "int (length new) = \<lceil>(of_int n :: real) / of_int bs\<rceil>"
    by blast
  then show "int (length (calls wld')) = int (length (calls wld)) + \<lceil>(of_int n :: real) / of_int bs\<rceil>"
    by simp
  have res: "fst (inception_score m bl ims bs splits yg sg wld) = aggregate sg ys n splits"
    by (simp add: inception_score_result run n)
  show "fst (inception_score m bl ims bs splits yg sg wld) = Inl ValueError" if "splits < 0"
    using that by (simp add: res aggregate_eq)
  show "fst (inception_score m bl ims bs splits yg sg wld) = Inr (NaN, NaN)"
    if sp: "0 \<le> splits" "splits = 0 \<or> n < splits"
    unfolding res
  proof (rule aggregate_NaN[OF sp(1)])
    show "splits = 0 \<or> (\<exists>i\<in>set (py_range splits). split_score ys n splits i = NaN)"
    proof (cases "splits = 0")
      case True
      then show ?thesis by simp
    next
      case False
      then have lt: "n < splits" using sp(2) by simp
      have n0: "0 \<le> n" by (simp add: n)
      have "0 \<in> set (py_range splits)" using False sp(1) by (auto simp: py_range_def image_iff)
      moreover have "n div splits = 0" using n0 lt by simp
      then have "split_part ys n splits 0 = []"
        by (simp add: split_part_def split_range_def py_slice_def slice_bounds_def norm_index_def)
      then have "split_score ys n splits 0 = NaN" by (simp add: split_score_def part_score_Nil)
      ultimately show ?thesis by blast
    qed
  qed
qed

lemma run_pair:
  assumes "fst (predictions m bl ims bs yg wld) = Inr ys"
  shows "predictions m bl ims bs yg wld = (Inr ys, snd (predictions m bl ims bs yg wld))"
  using assms by (metis prod.collapse)

section \<open>Single batches, wrong widths and uninitialised rows\<close>

lemma py_range_numeral:
  "py_range 1 = [0]" "py_range 2 = [0, 1]" "py_range 3 = [0, 1, 2]"
  by (simp_all add: py_range_def numeral_2_eq_2 numeral_3_eq_3)

lemma ceiling_one:
  fixes n bs :: int
  assumes "0 < n" "n \<le> bs"
  shows "\<lceil>(of_int n :: real) / of_int bs\<rceil> = 1"
proof -
  have bs: "(0::real) < of_int bs" using assms by simp
  have n: "(0::real) < of_int n" using assms by simp
  have le: "(of_int n :: real) \<le> of_int bs" using assms(2) by (simp only: of_int_le_iff)
  have "0 < (of_int n :: real) / of_int bs" using n bs by (rule divide_pos_pos)
  moreover have "(of_int n :: real) / of_int bs \<le> 1" using bs le by (simp only: divide_le_eq_1_pos)
  ultimately show ?thesis by (simp add: ceiling_eq_iff)
qed

lemma batch_loop_single: "snd (batch_loop body [i] ys wld) = snd (body i ys wld)"
  by (simp split: prod.splits sum.splits)

lemma single_batch:
  fixes bs :: int
  assumes "0 < length (imgs (heap wld ! ims))" "int (length (imgs (heap wld ! ims))) \<le> bs"
  shows "calls (snd (predictions m bl ims bs yg wld))
       = calls wld @ [step_call m bl ims (int (length (imgs (heap wld ! ims))))
                        (dim2 (heap wld ! ims)) (dim3 (heap wld ! ims)) bs 0 wld]"
proof -
  let ?n = "int (length (imgs (heap wld ! ims)))"
  have n: "0 < ?n" using assms(1) by simp
  have one: "\<lceil>(of_int ?n :: real) / of_int bs\<rceil> = 1" using n assms(2) by (rule ceiling_one)
  have bs: "bs \<noteq> 0" using n assms(2) by linarith
  have "snd (predictions m bl ims bs yg wld)
      = snd (batch_body m bl ims ?n (dim2 (heap wld ! ims)) (dim3 (heap wld ! ims)) bs 0
               (empty2 yg (nat ?n) n_classes) wld)"
    unfolding predictions_def n_batches_def Let_def using bs
    by (simp only: if_False sum.case one py_range_numeral batch_loop_single)
  then show ?thesis by (simp add: batch_body_world)
qed

lemma wrong_width_fails:
  assumes "y \<noteq> []" "list_all (\<lambda>row. length row = c) y" "c \<noteq> 1" "c \<noteq> n_classes"
  shows "broadcast_to k n_classes y = None"
proof -
  from assms(1) obtain r rest where y: "y = r # rest" by (cases y) auto
  then have "length r = c" using assms(2) by simp
  then have "\<not> list_all (\<lambda>row. length row = n_classes) y" "\<not> list_all (\<lambda>row. length row = 1) y"
    using assms(3,4) y by simp_all
  then show ?thesis by (simp add: broadcast_to_def)
qed

lemma collect_rows_first_error:
  assumes "g 0 = Inl e"
  shows "collect_rows g (Suc k) = Inl e"
  using assms by (induction k) simp_all

lemma ceiling_pos:
  fixes n bs :: int
  assumes "0 < n" "0 < bs"
  shows "0 < \<lceil>(of_int n :: real) / of_int bs\<rceil>"
proof -
  have "0 < (of_int n :: real) / of_int bs" using assms by simp
  then show ?thesis by (simp add: ceiling_less_iff)
qed

lemma wrong_width_run:
  fixes bs :: int
  assumes fw: "forward m = pure_classifier f"
    and f: "\<And>cfg a. imgs a \<noteq> [] \<Longrightarrow> \<exists>y. f cfg a = Inr y \<and> y \<noteq> [] \<and> list_all (\<lambda>row. length row = c) y"
    and c: "c \<noteq> 1" "c \<noteq> n_classes"
    and kc: "keeps_count bl" and bs: "0 < bs" and ims: "ims < length (heap wld)"
    and n: "0 < length (imgs (heap wld ! ims))"
  shows "fst (inception_score m bl ims bs splits yg sg wld) = Inl ValueError"
proof -
  define a where "a = heap wld ! ims"
  let ?n = "int (length (imgs a))"
  let ?inp = "batch_input bl (dim2 a) (dim3 a) a (batch_bounds ?n bs 0)"
  have n0: "0 * bs < ?n" using n by (simp add: a_def)
  have len: "length (imgs ?inp) = length (range_rows (length (imgs a)) (batch_bounds ?n bs 0))"
    using kc bs _ n0 by (rule batch_input_length) simp
  have "slice_bounds (nat ?n) (0 * bs) (min ((0 + 1) * bs) ?n) = (nat (0 * bs), nat (min ((0 + 1) * bs) ?n))"
    using bs _ _ n0 by (rule batch_slice_bounds) simp_all
  then have "length (range_rows (length (imgs a)) (batch_bounds ?n bs 0)) = nat (min bs ?n)"
    by (simp add: range_rows_def batch_bounds_def)
  moreover have "0 < nat (min bs ?n)" using bs n by (simp add: a_def)
  ultimately have "0 < length (imgs ?inp)" using len by simp
  then have "imgs ?inp \<noteq> []" by simp
  from f[OF this] obtain y where y: "f (inference_config (config wld)) ?inp = Inr y"
    "y \<noteq> []" "list_all (\<lambda>row. length row = c) y" by blast
  have "batch_result f (config wld) bl a bs 0 = Inl ValueError"
    by (simp add: batch_result_def Let_def y(1) wrong_width_fails[OF y(2,3) c])
  then have err: "collect_rows (batch_result f (config wld) bl a bs) (Suc k) = Inl ValueError" for k
    by (rule collect_rows_first_error)
  have "0 < \<lceil>(of_int ?n :: real) / of_int bs\<rceil>" using n bs by (intro ceiling_pos) (simp_all add: a_def)
  then obtain k where k: "nat \<lceil>(of_int ?n :: real) / of_int bs\<rceil> = Suc k"
    by (metis Suc_pred' zero_less_nat_eq)
  have "fst (predictions m bl ims bs yg wld)
      = collect_rows (batch_result f (config wld) bl a bs) (nat \<lceil>(of_int ?n :: real) / of_int bs\<rceil>)"
    by (rule predictions_pure(1)[OF fw bs a_def[symmetric] ims])
  also have "\<dots> = Inl ValueError" unfolding k by (rule err)
  finally have "fst (predictions m bl ims bs yg wld) = Inl ValueError" .
  then show ?thesis by (simp add: inception_score_result)
qed

lemma empty2_shape:
  "length (empty2 yg k c) = k" "\<forall>row\<in>set (empty2 yg k c). length row = c"
  by (auto simp: empty2_def)

lemma setitem_column:
  assumes "slice_bounds (length ys) a b = (l, l + k)"
  shows "setitem_rows n_classes ys a b (replicate k [x])
       = Inr (take l ys @ replicate k (replicate n_classes x) @ drop (l + k) ys)"
  using assms by (simp add: setitem_rows_def broadcast_to_column)

lemma setitem_wrong_width:
  assumes "y \<noteq> []" "list_all (\<lambda>row. length row = c) y" "c \<noteq> 1" "c \<noteq> n_classes"
  shows "setitem_rows n_classes ys a b y = Inl ValueError"
  by (simp add: setitem_rows_def wrong_width_fails[OF assms] split: prod.splits)

lemma pure_result_determined:
  fixes bs :: int
  assumes fw1: "forward m1 = pure_classifier f" and fw2: "forward m2 = pure_classifier f"
    and bs: "0 < bs" and ims1: "ims1 < length (heap w1)" and ims2: "ims2 < length (heap w2)"
    and same: "heap w1 ! ims1 = heap w2 ! ims2" "config w1 = config w2"
  shows "fst (inception_score m1 bl ims1 bs splits yg1 sg1 w1)
       = fst (inception_score m2 bl ims2 bs splits yg2 sg2 w2)"
proof -
  have "fst (predictions m1 bl ims1 bs yg1 w1) = fst (predictions m2 bl ims2 bs yg2 w2)"
    using predictions_pure(1)[OF fw1 bs refl ims1, of bl yg1]
      predictions_pure(1)[OF fw2 bs refl ims2, of bl yg2] same by simp
  then show ?thesis
    by (simp add: inception_score_result same(1) aggregate_eq split: sum.splits)
qed

lemma garbage_run:
  fixes bs :: int
  assumes "bs < 0"
  shows "fst (inception_score m bl ims bs splits yg sg wld)
       = aggregate sg (empty2 yg (length (imgs (heap wld ! ims))) n_classes)
           (int (length (imgs (heap wld ! ims)))) splits"
  by (simp add: inception_score_result predictions_negative[OF assms])

lemma empty2_const: "empty2 (\<lambda>r c. x) k c = replicate k (replicate c x)"
  by (simp add: empty2_def map_replicate_trivial)

lemma split_part_whole:
  assumes "0 < length ys"
  shows "split_part ys (int (length ys)) 1 0 = ys"
  using assms by (simp add: split_part_def split_range_def py_slice_def slice_bounds_def norm_index_def)

lemma aggregate_single:
  "aggregate sg ys n 1 = Inr (fmean [split_score ys n 1 0], fstd [split_score ys n 1 0])"
  by (simp add: aggregate_eq py_range_numeral)

section \<open>The images of the batches\<close>

lemma py_slice_ordered:
  assumes "0 \<le> a" "a \<le> b" "b \<le> int (length xs)"
  shows "py_slice xs a b = take (nat b - nat a) (drop (nat a) xs)"
  using slice_bounds_ordered[OF assms] by (simp add: py_slice_def)

lemma batch_slices_prefix:
  fixes n bs :: int
  assumes bs: "0 < bs" and n: "n = int (length xs)"
    and k: "int k \<le> \<lceil>(of_int n :: real) / of_int bs\<rceil>"
  shows "concat (map (\<lambda>i. py_slice xs (fst (batch_bounds n bs i)) (snd (batch_bounds n bs i)))
                  (py_range (int k)))
       = take (nat (min (int k * bs) n)) xs"
  using k
proof (induction k)
  case 0
  show ?case by (simp add: py_range_def)
next
  case (Suc k)
  have lt: "int k * bs < n" using bs Suc.prems by (intro less_ceiling_mult) simp_all
  have lo: "0 \<le> int k * bs" using bs by simp
  have le: "int k * bs \<le> min ((int k + 1) * bs) n" using bs lt by (simp add: algebra_simps)
  have "py_slice xs (int k * bs) (min ((int k + 1) * bs) n)
      = take (nat (min ((int k + 1) * bs) n) - nat (int k * bs)) (drop (nat (int k * bs)) xs)"
    using lo le by (rule py_slice_ordered) (simp add: n)
  moreover have "concat (map (\<lambda>i. py_slice xs (fst (batch_bounds n bs i)) (snd (batch_bounds n bs i)))
                  (py_range (int k))) = take (nat (int k * bs)) xs"
    using Suc lt by (simp add: min_absorb1)
  moreover have "take (nat (int k * bs)) xs
       @ take (nat (min ((int k + 1) * bs) n) - nat (int k * bs)) (drop (nat (int k * bs)) xs)
      = take (nat (min ((int k + 1) * bs) n)) xs"
    using lo le by (metis le_add_diff_inverse nat_mono take_add)
  ultimately show ?case
    unfolding py_range_Suc by (simp add: batch_bounds_def add.commute)
qed

lemma batch_slices_concat:
  fixes bs :: int
  assumes bs: "0 < bs"
  shows "concat (map (\<lambda>i. imgs (slice_imgs a (batch_bounds (int (length (imgs a))) bs i)))
                  (py_range \<lceil>(of_int (int (length (imgs a))) :: real) / of_int bs\<rceil>))
       = imgs a"
proof -
  let ?n = "int (length (imgs a))"
  let ?nb = "\<lceil>(of_int ?n :: real) / of_int bs\<rceil>"
  have nb0: "0 \<le> ?nb" using bs by (intro ceiling_nonneg) simp_all
  then have knb: "int (nat ?nb) = ?nb" by simp
  have "concat (map (\<lambda>i. py_slice (imgs a) (fst (batch_bounds ?n bs i)) (snd (batch_bounds ?n bs i)))
                  (py_range (int (nat ?nb))))
       = take (nat (min (int (nat ?nb) * bs) ?n)) (imgs a)"
    using bs refl by (rule batch_slices_prefix) (simp only: knb order_refl)
  moreover have "nat (min (int (nat ?nb) * bs) ?n) = length (imgs a)"
    unfolding knb using ceiling_mult_ge[OF bs, of ?n] by (simp add: min_absorb2)
  ultimately show ?thesis unfolding knb by (simp add: slice_imgs_def)
qed

lemma predictions_inputs:
  fixes bs :: int
  assumes bs: "0 < bs" and n: "n = int (length (imgs (heap wld ! ims)))"
    and run: "predictions m bl ims bs yg wld = (Inr ys, wld')"
    and ao: "allocates_only (forward m)" and ims: "ims < length (heap wld)"
  shows "map call_input (drop (length (calls wld)) (calls wld'))
       = map (\<lambda>i. batch_input bl (dim2 (heap wld ! ims)) (dim3 (heap wld ! ims)) (heap wld ! ims)
                   (batch_bounds n bs i))
           (py_range \<lceil>(of_int n :: real) / of_int bs\<rceil>)"
proof -
  let ?inp = "batch_input bl (dim2 (heap wld ! ims)) (dim3 (heap wld ! ims)) (heap wld ! ims)"
  from predictions_success[OF bs n run] obtain new where
    new: "calls wld' = calls wld @ new"
      "map call_range new = map (batch_bounds n bs) (py_range \<lceil>(of_int n :: real) / of_int bs\<rceil>)"
    by blast
  from frame_input_invariant[OF ao ims, of bl bs yg] obtain new' where
    new': "calls wld' = calls wld @ new'" "\<forall>c\<in>set new'. call_input c = ?inp (call_range c)"
    unfolding run by auto
  have same: "new' = new" using new(1) new'(1) by simp
  have "map call_input new = map (\<lambda>c. ?inp (call_range c)) new"
    using new'(2) same by simp
  also have "\<dots> = map ?inp (map call_range new)" by simp
  also have "\<dots> = map (\<lambda>i. ?inp (batch_bounds n bs i)) (py_range \<lceil>(of_int n :: real) / of_int bs\<rceil>)"
    unfolding new(2) by simp
  finally show ?thesis by (simp add: new(1))
qed

section \<open>The claims\<close>

text \<open>
  C1. \<^verbatim>\<open>inception_score\<close> does not check \<open>splits\<close>. When the first loop ends
  without an error (\<open>batch_size \<ge> 1\<close>) and \<open>splits \<le> 0\<close> or \<open>splits > n\<close>, the
  classifier has been invoked for all \<open>\<lceil>n / batch_size\<rceil>\<close> batches; after that a negative
  \<open>splits\<close> raises \<^verbatim>\<open>ValueError\<close> where the scores are allocated, and
  \<open>splits = 0\<close> or \<open>splits > n\<close> returns \<^verbatim>\<open>(nan, nan)\<close> and raises nothing.
\<close>

theorem splits_not_checked:
  fixes bs splits :: int
  assumes bs: "1 \<le> bs" and n: "n = int (length (imgs (heap wld ! ims)))"
    and run: "predictions m bl ims bs yg wld = (Inr ys, wld')"
    and sp: "splits \<le> 0 \<or> n < splits"
  shows "snd (inception_score m bl ims bs splits yg sg wld) = wld'
       \<and> int (length (calls wld')) = int (length (calls wld)) + \<lceil>(of_int n :: real) / of_int bs\<rceil>
       \<and> (splits < 0 \<longrightarrow> fst (inception_score m bl ims bs splits yg sg wld) = Inl ValueError)
       \<and> (0 \<le> splits \<longrightarrow> fst (inception_score m bl ims bs splits yg sg wld) = Inr (NaN, NaN))"
proof -
  have bs0: "0 < bs" using bs by simp
  have "fst (inception_score m bl ims bs splits yg sg wld) = Inr (NaN, NaN)" if "0 \<le> splits"
    using that sp by (intro splits_unchecked(4)[OF bs0 n run]) auto
  moreover have "splits < 0 \<longrightarrow> fst (inception_score m bl ims bs splits yg sg wld) = Inl ValueError"
    using splits_unchecked(3)[OF bs0 n run] by blast
  ultimately show ?thesis
    using splits_unchecked(1)[OF bs0 n run] splits_unchecked(2)[OF bs0 n run] by blast
qed

theorem splits_not_checked_witness:
  "int (length (calls (snd (inception_score (const_model uniform) no_resize 0 25 (- 1)
          (\<lambda>r c. Fin 0) (\<lambda>i. Fin 0) (start_world 3))))) = 1
   \<and> fst (inception_score (const_model uniform) no_resize 0 25 (- 1)
          (\<lambda>r c. Fin 0) (\<lambda>i. Fin 0) (start_world 3)) = Inl ValueError"
proof -
  let ?run = "predictions (const_model uniform) no_resize 0 25 (\<lambda>r c. Fin 0) (start_world 3)"
  have "fst ?run = Inr (replicate (length (imgs (heap (start_world 3) ! 0))) uniform)"
    by (rule const_run[OF const_model_simps(1) uniform_simps(1) keeps_count_no_resize])
       (simp_all add: start_world_simps)
  then have run: "?run = (Inr (replicate (length (imgs (heap (start_world 3) ! 0))) uniform), snd ?run)"
    by (rule run_pair)
  have one: "\<lceil>(of_int (int (length (imgs (heap (start_world 3) ! 0)))) :: real) / of_int 25\<rceil> = 1"
    by (rule ceiling_one) (simp_all add: start_world_simps)
  have bs: "(1::int) \<le> 25" by simp
  have sp: "(- 1 :: int) \<le> 0 \<or> int (length (imgs (heap (start_world 3) ! 0))) < - 1" by simp
  from splits_not_checked[OF bs refl run sp, of "\<lambda>i. Fin 0"] show ?thesis
    unfolding one by (simp add: start_world_simps)
qed

text \<open>
  With 3 images, a batch size of 25 and 10 splits, nothing is rejected: the classifier is
  invoked once and the result is \<^verbatim>\<open>(nan, nan)\<close>.
\<close>

theorem splits_above_n_counterexample:
  "fst (inception_score (const_model uniform) no_resize 0 25 10
          (\<lambda>r c. Fin 0) (\<lambda>i. Fin 0) (start_world 3)) = Inr (NaN, NaN)
   \<and> length (calls (snd (inception_score (const_model uniform) no_resize 0 25 10
          (\<lambda>r c. Fin 0) (\<lambda>i. Fin 0) (start_world 3)))) = 1"
proof -
  let ?run = "predictions (const_model uniform) no_resize 0 25 (\<lambda>r c. Fin 0) (start_world 3)"
  have "fst ?run = Inr (replicate (length (imgs (heap (start_world 3) ! 0))) uniform)"
    by (rule const_run[OF const_model_simps(1) uniform_simps(1) keeps_count_no_resize])
       (simp_all add: start_world_simps)
  then have run: "?run = (Inr (replicate (length (imgs (heap (start_world 3) ! 0))) uniform), snd ?run)"
    by (rule run_pair)
  have one: "\<lceil>(of_int (int (length (imgs (heap (start_world 3) ! 0)))) :: real) / of_int 25\<rceil> = 1"
    by (rule ceiling_one) (simp_all add: start_world_simps)
  have bs: "(0::int) < 25" by simp
  have "fst (inception_score (const_model uniform) no_resize 0 25 10
          (\<lambda>r c. Fin 0) (\<lambda>i. Fin 0) (start_world 3)) = Inr (NaN, NaN)"
    by (rule splits_unchecked(4)[OF bs refl run]) (simp_all add: start_world_simps)
  moreover have "length (calls (snd (inception_score (const_model uniform) no_resize 0 25 10
          (\<lambda>r c. Fin 0) (\<lambda>i. Fin 0) (start_world 3)))) = 1"
    using splits_unchecked(2)[OF bs refl run]
    unfolding splits_unchecked(1)[OF bs refl run] one by (simp add: start_world_simps)
  ultimately show ?thesis by simp
qed

text \<open>
  C2. For \<open>1 \<le> S \<le> N\<close>, split \<open>s\<close> of \<open>0 \<le> s < S\<close> has the bounds
  \<open>s * N div S\<close> and \<open>(s + 1) * N div S\<close> and takes the rows between them; it has
  \<open>N div S\<close> or \<open>N div S + 1\<close> rows; the splits' rows, in order, are the rows
  \<open>0, \<dots>, N - 1\<close> once each, the splits' parts put together are the matrix, and the sizes
  add up to \<open>N\<close>.
\<close>

theorem split_ranges_partition:
  assumes "1 \<le> S" "S \<le> N" "length ys = nat N"
  shows "(\<forall>s\<in>set (py_range S).
            split_range N S s = (s * N div S, (s + 1) * N div S)
          \<and> split_rows N S s = [nat (s * N div S)..<nat ((s + 1) * N div S)]
          \<and> (int (length (split_rows N S s)) = N div S \<or> int (length (split_rows N S s)) = N div S + 1)
          \<and> length (split_part ys N S s) = length (split_rows N S s))
       \<and> concat (map (split_rows N S) (py_range S)) = [0..<nat N]
       \<and> concat (map (split_part ys N S) (py_range S)) = ys
       \<and> (\<Sum>s\<leftarrow>py_range S. int (length (split_rows N S s))) = N"
proof -
  have S: "0 < S" and N: "0 \<le> N" using assms by linarith+
  have fin: "int (nat S) * N div S = N" using S by simp
  have each: "split_range N S s = (s * N div S, (s + 1) * N div S)
          \<and> split_rows N S s = [nat (s * N div S)..<nat ((s + 1) * N div S)]
          \<and> (int (length (split_rows N S s)) = N div S \<or> int (length (split_rows N S s)) = N div S + 1)
          \<and> length (split_part ys N S s) = length (split_rows N S s)"
    if "s \<in> set (py_range S)" for s
  proof -
    from that have s: "0 \<le> s" "s < S" by (auto simp: py_range_def)
    have rows: "split_rows N S s = [nat (s * N div S)..<nat ((s + 1) * N div S)]"
      using S N s by (rule split_rows_eq)
    have lo: "0 \<le> s * N div S" using S N s(1) by (rule split_lo_nonneg)
    have mono: "s * N div S \<le> (s + 1) * N div S" using S N by (rule split_mono)
    have hi: "(s + 1) * N div S \<le> N" using S N s(2) by (rule split_hi_le)
    have len: "int (length (split_rows N S s)) = (s + 1) * N div S - s * N div S"
      using rows lo mono by simp
    have part: "length (split_part ys N S s) = length (split_rows N S s)"
      using split_part_eq[OF S N s assms(3)] rows lo mono hi assms(3) by simp
    show ?thesis using rows len split_size[OF S N, of s] part by (simp add: split_range_def)
  qed
  have p1: "concat (map (split_rows N S) (py_range S)) = [0..<nat N]"
    using split_rows_prefix[OF S N, of "nat S"] S fin by (simp add: py_range_def)
  have p2: "concat (map (split_part ys N S) (py_range S)) = ys"
    using split_part_prefix[OF S N _ assms(3), of "nat S"] S fin assms(3) by (simp add: py_range_def)
  have "(\<Sum>s\<leftarrow>py_range S. int (length (split_rows N S s)))
      = (\<Sum>s\<leftarrow>py_range S. snd (split_range N S s) - fst (split_range N S s))"
  proof (rule arg_cong[where f = sum_list], rule map_cong[OF refl])
    fix s assume "s \<in> set (py_range S)"
    then have s: "0 \<le> s" "s < S" by (auto simp: py_range_def)
    have lo: "0 \<le> s * N div S" using S N s(1) by (rule split_lo_nonneg)
    have mono: "s * N div S \<le> (s + 1) * N div S" using S N by (rule split_mono)
    show "int (length (split_rows N S s)) = snd (split_range N S s) - fst (split_range N S s)"
      using split_rows_eq[OF S N s] lo mono by (simp add: split_range_def)
  qed
  then have p3: "(\<Sum>s\<leftarrow>py_range S. int (length (split_rows N S s))) = N"
    using sum_list_sizes[OF S N, of "nat S"] S fin by (simp add: py_range_def)
  show ?thesis using each p1 p2 p3 by blast
qed

theorem split_ranges_partition_witness:
  "concat (map (split_rows 23 10) (py_range 10)) = [0..<23]
   \<and> (\<Sum>s\<leftarrow>py_range 10. int (length (split_rows 23 10 s))) = 23"
  using split_ranges_partition [of 10 23 "replicate 23 []"] by simp

text \<open>
  C3. With \<open>batch_size \<ge> 1\<close>, a run of the first loop that ends without an error has
  invoked the classifier \<open>\<lceil>n / batch_size\<rceil>\<close> times, in order, invocation \<open>i\<close> for the
  bounds \<open>i * batch_size\<close> and \<open>min ((i + 1) * batch_size) n\<close>, that is for the rows from
  the first bound up to the second; these row ranges put one after the other are the rows
  \<open>0, \<dots>, n - 1\<close>, once each, and the images of the batches put one after the other are
  the images of \<^verbatim>\<open>ims\<close>; the container that results is made of the rows that each
  invocation's output put there, in order, as many rows as the batch has; and a classifier
  that writes to no existing array is given, at invocation \<open>i\<close>, the images of batch
  \<open>i\<close> (resized when their shape asks for it).
\<close>

theorem batches_cover_rows:
  fixes n bs :: int
  assumes n: "n = int (length (imgs (heap wld ! ims)))" and bs: "1 \<le> bs"
    and run: "predictions m bl ims bs yg wld = (Inr ys, wld')"
  shows "\<exists>new. calls wld' = calls wld @ new
      \<and> int (length new) = \<lceil>(of_int n :: real) / of_int bs\<rceil>
      \<and> map call_range new
          = map (\<lambda>i. (i * bs, min ((i + 1) * bs) n)) (py_range \<lceil>(of_int n :: real) / of_int bs\<rceil>)
      \<and> (\<forall>i\<in>set (py_range \<lceil>(of_int n :: real) / of_int bs\<rceil>).
            batch_rows n bs i = [nat (i * bs)..<nat (min ((i + 1) * bs) n)])
      \<and> concat (map (batch_rows n bs) (py_range \<lceil>(of_int n :: real) / of_int bs\<rceil>)) = [0..<nat n]
      \<and> length ys = nat n
      \<and> ys = concat (map (call_rows (nat n)) new)
      \<and> map (\<lambda>c. length (call_rows (nat n) c)) new
          = map (\<lambda>i. length (batch_rows n bs i)) (py_range \<lceil>(of_int n :: real) / of_int bs\<rceil>)
      \<and> concat (map (\<lambda>i. imgs (slice_imgs (heap wld ! ims) (i * bs, min ((i + 1) * bs) n)))
                   (py_range \<lceil>(of_int n :: real) / of_int bs\<rceil>))
          = imgs (heap wld ! ims)
      \<and> (allocates_only (forward m) \<and> ims < length (heap wld) \<longrightarrow>
            map call_input new
              = map (\<lambda>i. batch_input bl (dim2 (heap wld ! ims)) (dim3 (heap wld ! ims))
                          (heap wld ! ims) (i * bs, min ((i + 1) * bs) n))
                  (py_range \<lceil>(of_int n :: real) / of_int bs\<rceil>))"
proof -
  define nb where "nb = \<lceil>(of_int n :: real) / of_int bs\<rceil>"
  have bs0: "0 < bs" and n0: "0 \<le> n" using bs n by simp_all
  have nb0: "0 \<le> nb" unfolding nb_def using bs0 n0 by (rule ceiling_nonneg)
  then have knb: "int (nat nb) = nb" by simp
  have full: "nat (min (nb * bs) n) = nat n"
    using ceiling_mult_ge[OF bs0, of n] by (simp add: nb_def min_absorb2)
  from predictions_success[OF bs0 n run, folded nb_def] obtain new where
    new: "calls wld' = calls wld @ new" "int (length new) = nb"
      "map call_range new = map (batch_bounds n bs) (py_range nb)" and
    ys: "length ys = nat n" "ys = concat (map (call_rows (nat n)) new)" and
    rows: "\<forall>c\<in>set new.
         length (call_rows (nat n) c) = length (range_rows (nat n) (call_range c))"
    by auto
  have c2: "map call_range new = map (\<lambda>i. (i * bs, min ((i + 1) * bs) n)) (py_range nb)"
    using new(3) by (simp add: batch_bounds_def)
  have c3: "batch_rows n bs i = [nat (i * bs)..<nat (min ((i + 1) * bs) n)]"
    if "i \<in> set (py_range nb)" for i
  proof -
    from that have i: "0 \<le> i" "i < nb" using nb0 by (auto simp: py_range_def)
    have "i * bs < n" using bs0 i(2) unfolding nb_def by (rule less_ceiling_mult)
    then show ?thesis using bs0 n0 i(1) by (intro batch_rows_eq)
  qed
  have "concat (map (batch_rows n bs) (py_range (int (nat nb))))
      = [0..<nat (min (int (nat nb) * bs) n)]"
  proof (rule batch_rows_prefix[OF bs0 n0])
    show "int (nat nb) \<le> \<lceil>(of_int n :: real) / of_int bs\<rceil>" using nb0 unfolding nb_def by simp
  qed
  then have c4: "concat (map (batch_rows n bs) (py_range nb)) = [0..<nat n]"
    unfolding knb full .
  have "map (\<lambda>c. length (call_rows (nat n) c)) new
      = map (\<lambda>c. length (range_rows (nat n) (call_range c))) new"
    using rows by simp
  also have "\<dots> = map (\<lambda>r. length (range_rows (nat n) r)) (map call_range new)"
    by simp
  also have "\<dots> = map (\<lambda>i. length (batch_rows n bs i)) (py_range nb)"
    unfolding new(3) by (simp add: batch_rows_def)
  finally have c6: "map (\<lambda>c. length (call_rows (nat n) c)) new
      = map (\<lambda>i. length (batch_rows n bs i)) (py_range nb)" .
  have c7: "concat (map (\<lambda>i. imgs (slice_imgs (heap wld ! ims) (i * bs, min ((i + 1) * bs) n)))
                   (py_range nb)) = imgs (heap wld ! ims)"
    using batch_slices_concat[OF bs0, of "heap wld ! ims"]
    by (simp only: nb_def n batch_bounds_def)
  have c8: "map call_input new
              = map (\<lambda>i. batch_input bl (dim2 (heap wld ! ims)) (dim3 (heap wld ! ims))
                          (heap wld ! ims) (i * bs, min ((i + 1) * bs) n))
                  (py_range nb)"
    if "allocates_only (forward m) \<and> ims < length (heap wld)"
  proof -
    have "map call_input (drop (length (calls wld)) (calls wld'))
       = map (\<lambda>i. batch_input bl (dim2 (heap wld ! ims)) (dim3 (heap wld ! ims)) (heap wld ! ims)
                   (batch_bounds n bs i)) (py_range nb)"
      unfolding nb_def using bs0 n run that[THEN conjunct1] that[THEN conjunct2]
      by (rule predictions_inputs)
    then show ?thesis by (simp add: new(1) batch_bounds_def)
  qed
  show ?thesis
    unfolding nb_def[symmetric]
  proof (intro exI[of _ new] conjI impI)
    show "calls wld' = calls wld @ new" by (rule new(1))
    show "int (length new) = nb" by (rule new(2))
    show "map call_range new = map (\<lambda>i. (i * bs, min ((i + 1) * bs) n)) (py_range nb)" by (rule c2)
    show "\<forall>i\<in>set (py_range nb). batch_rows n bs i = [nat (i * bs)..<nat (min ((i + 1) * bs) n)]"
      using c3 by blast
    show "concat (map (batch_rows n bs) (py_range nb)) = [0..<nat n]" by (rule c4)
    show "length ys = nat n" by (rule ys(1))
    show "ys = concat (map (call_rows (nat n)) new)" by (rule ys(2))
    show "map (\<lambda>c. length (call_rows (nat n) c)) new
          = map (\<lambda>i. length (batch_rows n bs i)) (py_range nb)" by (rule c6)
    show "concat (map (\<lambda>i. imgs (slice_imgs (heap wld ! ims) (i * bs, min ((i + 1) * bs) n)))
                   (py_range nb)) = imgs (heap wld ! ims)" by (rule c7)
    show "map call_input new
              = map (\<lambda>i. batch_input bl (dim2 (heap wld ! ims)) (dim3 (heap wld ! ims))
                          (heap wld ! ims) (i * bs, min ((i + 1) * bs) n))
                  (py_range nb)"
      if "allocates_only (forward m) \<and> ims < length (heap wld)"
      using that by (rule c8)
  qed
qed

theorem batches_cover_rows_witness:
  "\<exists>new. calls (snd (predictions (const_model uniform) no_resize 0 4 (\<lambda>r c. Fin 0) (start_world 10)))
          = new
      \<and> map call_range new = [(0, 4), (4, 8), (8, 10)]
      \<and> map (\<lambda>c. length (call_rows 10 c)) new = [4, 4, 2]"
proof -
  let ?run = "predictions (const_model uniform) no_resize 0 4 (\<lambda>r c. Fin 0) (start_world 10)"
  have "fst ?run = Inr (replicate (length (imgs (heap (start_world 10) ! 0))) uniform)"
    by (rule const_run[OF const_model_simps(1) uniform_simps(1) keeps_count_no_resize])
       (simp_all add: start_world_simps)
  then have run: "?run = (Inr (replicate (length (imgs (heap (start_world 10) ! 0))) uniform), snd ?run)"
    by (rule run_pair)
  have n: "(10::int) = int (length (imgs (heap (start_world 10) ! 0)))"
    by (simp add: start_world_simps)
  have bs: "(1::int) \<le> 4" by simp
  have nb: "\<lceil>(of_int 10 :: real) / of_int 4\<rceil> = 3" by simp
  from batches_cover_rows[OF n bs run, unfolded nb] obtain new where
    new: "calls (snd ?run) = calls (start_world 10) @ new
      \<and> int (length new) = 3
      \<and> map call_range new = map (\<lambda>i. (i * 4, min ((i + 1) * 4) 10)) (py_range 3)
      \<and> (\<forall>i\<in>set (py_range 3). batch_rows 10 4 i = [nat (i * 4)..<nat (min ((i + 1) * 4) 10)])
      \<and> concat (map (batch_rows 10 4) (py_range 3)) = [0..<nat 10]
      \<and> length (replicate (length (imgs (heap (start_world 10) ! 0))) uniform) = nat 10
      \<and> replicate (length (imgs (heap (start_world 10) ! 0))) uniform
           = concat (map (call_rows (nat 10)) new)
      \<and> map (\<lambda>c. length (call_rows (nat 10) c)) new = map (\<lambda>i. length (batch_rows 10 4 i)) (py_range 3)
      \<and> concat (map (\<lambda>i. imgs (slice_imgs (heap (start_world 10) ! 0) (i * 4, min ((i + 1) * 4) 10)))
                   (py_range 3))
          = imgs (heap (start_world 10) ! 0)
      \<and> (allocates_only (forward (const_model uniform)) \<and> 0 < length (heap (start_world 10)) \<longrightarrow>
            map call_input new
              = map (\<lambda>i. batch_input no_resize (dim2 (heap (start_world 10) ! 0))
                          (dim3 (heap (start_world 10) ! 0))
                          (heap (start_world 10) ! 0) (i * 4, min ((i + 1) * 4) 10))
                  (py_range 3))"
    ..
  have c1: "calls (snd ?run) = new" using new[THEN conjunct1] by (simp add: start_world_simps)
  have c2: "map call_range new = [(0, 4), (4, 8), (8, 10)]"
    using new[THEN conjunct2, THEN conjunct2, THEN conjunct1] by (simp add: py_range_numeral)
  have rows: "batch_rows 10 4 0 = [nat (0 * 4)..<nat (min ((0 + 1) * 4) 10)]"
    "batch_rows 10 4 1 = [nat (1 * 4)..<nat (min ((1 + 1) * 4) 10)]"
    "batch_rows 10 4 2 = [nat (2 * 4)..<nat (min ((2 + 1) * 4) 10)]"
    using new[THEN conjunct2, THEN conjunct2, THEN conjunct2, THEN conjunct1]
    by (simp_all add: py_range_numeral)
  have lens: "length (batch_rows 10 4 0) = 4" "length (batch_rows 10 4 1) = 4"
    "length (batch_rows 10 4 2) = 2"
    unfolding rows by simp_all
  have "map (\<lambda>c. length (call_rows (nat 10) c)) new = map (\<lambda>i. length (batch_rows 10 4 i)) (py_range 3)"
    by (rule new[THEN conjunct2, THEN conjunct2, THEN conjunct2, THEN conjunct2,
          THEN conjunct2, THEN conjunct2, THEN conjunct2, THEN conjunct1])
  then have c3: "map (\<lambda>c. length (call_rows 10 c)) new = [4, 4, 2]"
    by (simp add: py_range_numeral lens)
  show ?thesis by (rule exI[of _ new]) (simp add: c1 c2 c3)
qed

text \<open>
  C4. For a matrix with \<open>n_classes\<close> columns and \<open>splits \<ge> 0\<close>, the score that the
  code computes for a split is the score as the specification words it (the exponential
  of the mean over the split's rows of the sum over the classes of
  \<open>p * (log p - log marginal)\<close>, the marginal being the column-wise mean of the split's
  rows); the result is the mean and the standard deviation of the splits' scores, which
  for finite scores are the arithmetic mean and the population standard deviation; and
  the score of a split is the same for any two matrices whose rows in that split agree.
\<close>

theorem aggregate_refines_spec:
  assumes rows: "\<forall>row\<in>set ys. length row = n_classes" and splits: "0 \<le> splits"
  shows "aggregate sg ys n splits
           = Inr (fmean (map (\<lambda>i. spec_split_score (split_part ys n splits i)) (py_range splits)),
                  fstd (map (\<lambda>i. spec_split_score (split_part ys n splits i)) (py_range splits)))
       \<and> (\<forall>i. split_score ys n splits i = spec_split_score (split_part ys n splits i))
       \<and> (\<forall>rs. rs \<noteq> []
              \<and> map (\<lambda>i. spec_split_score (split_part ys n splits i)) (py_range splits) = map Fin rs
            \<longrightarrow> aggregate sg ys n splits = Inr (Fin (real_mean rs), Fin (real_pstd rs)))
       \<and> (\<forall>ys' n' i. split_part ys' n' splits i = split_part ys n splits i
            \<longrightarrow> split_score ys' n' splits i = split_score ys n splits i)"
proof -
  have sc: "split_score ys n splits i = spec_split_score (split_part ys n splits i)" for i
  proof -
    have "\<forall>row\<in>set (split_part ys n splits i). length row = n_classes"
      using rows split_part_subset[of ys n splits i] by blast
    then show ?thesis unfolding split_score_def by (rule part_score_spec)
  qed
  have agg: "aggregate sg ys n splits
           = Inr (fmean (map (\<lambda>i. spec_split_score (split_part ys n splits i)) (py_range splits)),
                  fstd (map (\<lambda>i. spec_split_score (split_part ys n splits i)) (py_range splits)))"
  proof -
    have "split_score ys n splits = (\<lambda>i. spec_split_score (split_part ys n splits i))"
      by (rule ext) (rule sc)
    then show ?thesis using splits by (simp add: aggregate_eq)
  qed
  have fin: "aggregate sg ys n splits = Inr (Fin (real_mean rs), Fin (real_pstd rs))"
    if "rs \<noteq> []" "map (\<lambda>i. spec_split_score (split_part ys n splits i)) (py_range splits) = map Fin rs"
    for rs
    unfolding agg that(2) using that(1) by (simp add: fmean_Fin fstd_Fin)
  have loc: "split_score ys' n' splits i = split_score ys n splits i"
    if "split_part ys' n' splits i = split_part ys n splits i" for ys' n' i
    using that by (simp add: split_score_def)
  show ?thesis using agg sc fin loc by blast
qed

theorem aggregate_refines_spec_witness:
  "aggregate (\<lambda>i. Fin 0) (replicate 4 uniform) 4 2
     = Inr (Fin (real_mean [1, 1]), Fin (real_pstd [1, 1]))"
proof -
  have rows: "\<forall>row\<in>set (replicate 4 uniform). length row = n_classes"
    by (simp add: uniform_simps)
  have sp: "(0::int) \<le> 2" by simp
  note inst = aggregate_refines_spec[OF rows sp, of "\<lambda>i. Fin 0" 4]
  have sc: "split_score (replicate 4 uniform) (int 4) 2 i = Fin 1" if "i \<in> set (py_range 2)" for i
    using uniform_simps _ _ that by (rule const_scores(2)) simp_all
  have eq: "\<forall>i. split_score (replicate 4 uniform) 4 2 i
      = spec_split_score (split_part (replicate 4 uniform) 4 2 i)"
    by (rule inst[THEN conjunct2, THEN conjunct1])
  have fin: "\<forall>rs. rs \<noteq> []
              \<and> map (\<lambda>i. spec_split_score (split_part (replicate 4 uniform) 4 2 i)) (py_range 2) = map Fin rs
            \<longrightarrow> aggregate (\<lambda>i. Fin 0) (replicate 4 uniform) 4 2 = Inr (Fin (real_mean rs), Fin (real_pstd rs))"
    by (rule inst[THEN conjunct2, THEN conjunct2, THEN conjunct1])
  have "map (\<lambda>i. spec_split_score (split_part (replicate 4 uniform) 4 2 i)) (py_range 2)
      = map (split_score (replicate 4 uniform) 4 2) (py_range 2)"
    using eq by simp
  also have "\<dots> = map (\<lambda>i. Fin 1) (py_range 2)"
    using sc by (intro map_cong refl) simp
  also have "\<dots> = map Fin [1, 1]" by (simp add: py_range_numeral)
  finally have "map (\<lambda>i. spec_split_score (split_part (replicate 4 uniform) 4 2 i)) (py_range 2)
      = map Fin [1, 1]" .
  then show ?thesis using fin[rule_format, of "[1, 1]"] by simp
qed

text \<open>
  C5. With the Inception classifier, \<^verbatim>\<open>ims\<close> holds after \<^verbatim>\<open>inception_score\<close> what
  it held before, and so does every other array that existed before the call.
\<close>

theorem input_images_unchanged:
  assumes "forward m = Inception_call net" and "ims < length (heap wld)"
  shows "heap (snd (inception_score m bl ims bs splits yg sg wld)) ! ims = heap wld ! ims
       \<and> take (length (heap wld)) (heap (snd (inception_score m bl ims bs splits yg sg wld)))
           = heap wld"
proof -
  have ao: "allocates_only (forward m)" using assms(1) by (simp add: allocates_only_Inception)
  have pre: "take (length (heap wld)) (heap (snd (inception_score m bl ims bs splits yg sg wld)))
           = heap wld"
    using frame_input_invariant[OF ao assms(2), of bl bs yg] by (simp only: inception_score_world)
  then show ?thesis using take_prefix_nth(1)[OF pre assms(2)] by simp
qed

theorem input_images_unchanged_witness:
  "heap (snd (inception_score (inception_model (const_classifier uniform)) no_resize 0 25 10
            (\<lambda>r c. Fin 0) (\<lambda>i. Fin 0) (start_world 3))) ! 0 = blank_images 3"
proof -
  have fw: "forward (inception_model (const_classifier uniform)) = Inception_call (const_classifier uniform)"
    by (simp add: inception_model_def)
  have ims: "0 < length (heap (start_world 3))" by (simp add: start_world_simps)
  from input_images_unchanged[OF fw ims, of no_resize 25 10 "\<lambda>r c. Fin 0" "\<lambda>i. Fin 0"]
  show ?thesis by (simp add: start_world_simps)
qed

text \<open>
  C6. Whatever the arguments and whatever the classifier does: every invocation of the
  classifier sees \<open>train\<close> and \<open>enable_backprop\<close> switched off and every other flag as
  it was; after \<^verbatim>\<open>inception_score\<close>, ended by an error or not, the configuration is the
  one before it; and \<^verbatim>\<open>using_config\<close> puts back the flag it set whatever its body
  returns or raises.
\<close>

theorem inference_mode_scoped:
  "config (snd (inception_score m bl ims bs splits yg sg wld)) = config wld
   \<and> (\<exists>new. calls (snd (inception_score m bl ims bs splits yg sg wld)) = calls wld @ new
        \<and> (\<forall>c\<in>set new. call_config c ''train'' = False
              \<and> call_config c ''enable_backprop'' = False
              \<and> (\<forall>k. k \<noteq> ''train'' \<and> k \<noteq> ''enable_backprop''
                    \<longrightarrow> call_config c k = config wld k)))
   \<and> (\<forall>name val (body :: world \<Rightarrow> (error + matrix) \<times> world) w.
         config (snd (using_config name val body w)) name = config w name)"
proof -
  define I where "I = (\<lambda>w :: world. config w = config wld
      \<and> (\<exists>new. calls w = calls wld @ new
            \<and> (\<forall>c\<in>set new. call_config c = inference_config (config wld))))"
  have step: "I (snd (batch_body m bl ims n w h bs i ys wl))" if "I wl" for n w h i ys wl
  proof -
    from that obtain new where cfg: "config wl = config wld"
      and new: "calls wl = calls wld @ new"
        "\<forall>c\<in>set new. call_config c = inference_config (config wld)"
      by (auto simp: I_def)
    show ?thesis unfolding I_def
    proof (intro conjI exI[of _ "new @ [step_call m bl ims n w h bs i wl]"])
      show "config (snd (batch_body m bl ims n w h bs i ys wl)) = config wld"
        by (simp add: batch_body_world cfg)
      show "calls (snd (batch_body m bl ims n w h bs i ys wl))
          = calls wld @ new @ [step_call m bl ims n w h bs i wl]"
        by (simp add: batch_body_world new(1))
      show "\<forall>c\<in>set (new @ [step_call m bl ims n w h bs i wl]).
          call_config c = inference_config (config wld)"
        using new(2) by (simp add: step_call_simps cfg)
    qed
  qed
  have "I (snd (predictions m bl ims bs yg wld))"
  proof (rule predictions_rule[where I = I])
    show "I wld" by (simp add: I_def)
  next
    fix i ys wl
    assume "I wl"
    then show "I (snd (batch_body m bl ims (int (length (imgs (heap wld ! ims))))
               (dim2 (heap wld ! ims)) (dim3 (heap wld ! ims)) bs i ys wl))"
      by (rule step)
  qed
  then have "I (snd (inception_score m bl ims bs splits yg sg wld))"
    by (simp only: inception_score_world)
  then obtain new where cfg: "config (snd (inception_score m bl ims bs splits yg sg wld)) = config wld"
    and new: "calls (snd (inception_score m bl ims bs splits yg sg wld)) = calls wld @ new"
      "\<forall>c\<in>set new. call_config c = inference_config (config wld)"
    unfolding I_def by blast
  have flags: "\<forall>c\<in>set new. call_config c ''train'' = False
              \<and> call_config c ''enable_backprop'' = False
              \<and> (\<forall>k. k \<noteq> ''train'' \<and> k \<noteq> ''enable_backprop''
                    \<longrightarrow> call_config c k = config wld k)"
    using new(2) by (simp add: inference_config_flags)
  have restore: "\<forall>name val (body :: world \<Rightarrow> (error + matrix) \<times> world) w.
         config (snd (using_config name val body w)) name = config w name"
    by (simp add: using_config_restores)
  show ?thesis
  proof (intro conjI exI[of _ new])
    show "config (snd (inception_score m bl ims bs splits yg sg wld)) = config wld" by (rule cfg)
    show "calls (snd (inception_score m bl ims bs splits yg sg wld)) = calls wld @ new" by (rule new(1))
    show "\<forall>c\<in>set new. call_config c ''train'' = False
              \<and> call_config c ''enable_backprop'' = False
              \<and> (\<forall>k. k \<noteq> ''train'' \<and> k \<noteq> ''enable_backprop''
                    \<longrightarrow> call_config c k = config wld k)" by (rule flags)
    show "\<forall>name val (body :: world \<Rightarrow> (error + matrix) \<times> world) w.
         config (snd (using_config name val body w)) name = config w name" by (rule restore)
  qed
qed

theorem inference_mode_scoped_witness:
  "\<exists>c. calls (snd (inception_score failing_model no_resize 0 25 10
                    (\<lambda>r c. Fin 0) (\<lambda>i. Fin 0) (start_world 3))) = [c]
      \<and> call_output c = Inl (ClassifierError 0)
      \<and> call_config c ''train'' = False \<and> call_config c ''enable_backprop'' = False
      \<and> call_config c ''debug'' = True
      \<and> config (snd (inception_score failing_model no_resize 0 25 10
                    (\<lambda>r c. Fin 0) (\<lambda>i. Fin 0) (start_world 3))) = (\<lambda>name. True)"
proof -
  let ?w = "snd (inception_score failing_model no_resize 0 25 10
                    (\<lambda>r c. Fin 0) (\<lambda>i. Fin 0) (start_world 3))"
  let ?c = "step_call failing_model no_resize 0 (int (length (imgs (heap (start_world 3) ! 0))))
              (dim2 (heap (start_world 3) ! 0)) (dim3 (heap (start_world 3) ! 0)) 25 0 (start_world 3)"
  have one: "calls ?w = [?c]"
    unfolding inception_score_world
    using single_batch[of "start_world 3" 0 25 failing_model no_resize "\<lambda>r c. Fin 0"]
    by (simp add: start_world_simps)
  have fw: "forward failing_model = pure_classifier (\<lambda>cfg a. Inl (ClassifierError 0))"
    by (simp add: failing_model_def)
  have out: "call_output ?c = Inl (ClassifierError 0)"
    by (simp add: step_call_output_pure[OF fw])
  note inst = inference_mode_scoped[of failing_model no_resize 0 25 10 "\<lambda>r c. Fin 0" "\<lambda>i. Fin 0" "start_world 3"]
  have cfg: "config ?w = config (start_world 3)" by (rule inst[THEN conjunct1])
  from inst[THEN conjunct2, THEN conjunct1]
  obtain new where new: "calls ?w = calls (start_world 3) @ new"
      "\<forall>c\<in>set new. call_config c ''train'' = False
              \<and> call_config c ''enable_backprop'' = False
              \<and> (\<forall>k. k \<noteq> ''train'' \<and> k \<noteq> ''enable_backprop''
                    \<longrightarrow> call_config c k = config (start_world 3) k)"
    by blast
  have "new = [?c]" using new(1) one by (simp add: start_world_simps)
  then have "call_config ?c ''train'' = False \<and> call_config ?c ''enable_backprop'' = False
      \<and> call_config ?c ''debug'' = True"
    using new(2) by (simp add: start_world_simps)
  then show ?thesis using one out cfg by (simp add: start_world_simps)
qed

text \<open>
  C7. With a classifier that writes to no array that exists when it is called, every
  invocation is given the images of its batch resized to \<open>299 \<times> 299\<close> when the
  spatial shape of \<^verbatim>\<open>ims\<close> is not \<open>299 \<times> 299\<close>, and the images of its batch as
  they are when it is.
\<close>

theorem resize_iff_shape_differs:
  assumes "allocates_only (forward m)" and "ims < length (heap wld)"
  shows "\<exists>new. calls (snd (inception_score m bl ims bs splits yg sg wld)) = calls wld @ new
          \<and> (\<forall>c\<in>set new. call_input c =
                (if (dim2 (heap wld ! ims), dim3 (heap wld ! ims)) \<noteq> (299, 299)
                 then bl (slice_imgs (heap wld ! ims) (call_range c)) (299, 299)
                 else slice_imgs (heap wld ! ims) (call_range c)))"
  using frame_input_invariant[OF assms, of bl bs yg]
  by (simp only: inception_score_world batch_input_def)

theorem resize_iff_shape_differs_witness:
  "\<exists>c. calls (snd (inception_score (const_model uniform) no_resize 0 25 10
                    (\<lambda>r c. Fin 0) (\<lambda>i. Fin 0) (start_world 3))) = [c]
      \<and> call_range c = (0, 3) \<and> call_input c = blank_images 3"
proof -
  let ?w = "snd (inception_score (const_model uniform) no_resize 0 25 10
                    (\<lambda>r c. Fin 0) (\<lambda>i. Fin 0) (start_world 3))"
  let ?c = "step_call (const_model uniform) no_resize 0 (int (length (imgs (heap (start_world 3) ! 0))))
              (dim2 (heap (start_world 3) ! 0)) (dim3 (heap (start_world 3) ! 0)) 25 0 (start_world 3)"
  have one: "calls ?w = [?c]"
    unfolding inception_score_world
    using single_batch[of "start_world 3" 0 25 "const_model uniform" no_resize "\<lambda>r c. Fin 0"]
    by (simp add: start_world_simps)
  have rng: "call_range ?c = (0, 3)"
    by (simp add: step_call_simps batch_bounds_def start_world_simps)
  have ao: "allocates_only (forward (const_model uniform))"
    by (simp add: const_model_simps allocates_only_pure)
  have ims: "0 < length (heap (start_world 3))" by (simp add: start_world_simps)
  from resize_iff_shape_differs[OF ao ims, of no_resize 25 10 "\<lambda>r c. Fin 0" "\<lambda>i. Fin 0"]
  obtain new where new: "calls ?w = calls (start_world 3) @ new"
      "\<forall>c\<in>set new. call_input c =
                (if (dim2 (heap (start_world 3) ! 0), dim3 (heap (start_world 3) ! 0)) \<noteq> (299, 299)
                 then no_resize (slice_imgs (heap (start_world 3) ! 0) (call_range c)) (299, 299)
                 else slice_imgs (heap (start_world 3) ! 0) (call_range c))"
    by blast
  have "new = [?c]" using new(1) one by (simp add: start_world_simps)
  then have "call_input ?c = slice_imgs (blank_images 3) (0, 3)"
    using new(2) rng by (simp add: start_world_simps)
  also have "\<dots> = blank_images 3"
    by (simp add: slice_imgs_def py_slice_def slice_bounds_def norm_index_def blank_images_def)
  finally show ?thesis using one rng by simp
qed

text \<open>
  C8. With \<open>batch_size \<ge> 1\<close> and a classifier that is a function of the configuration
  and the images, the result of \<^verbatim>\<open>inception_score\<close> (a pair or an error) is the same
  for any two runs on the same images, interpolation, \<open>batch_size\<close>, \<open>splits\<close> and
  configuration: it depends neither on what the uninitialised arrays hold, nor on the
  backend, nor on where the images are in memory.
\<close>

theorem result_determined_by_inputs:
  fixes bs :: int
  assumes "forward m1 = pure_classifier f" and "forward m2 = pure_classifier f"
    and "1 \<le> bs" and "ims1 < length (heap w1)" and "ims2 < length (heap w2)"
    and "heap w1 ! ims1 = heap w2 ! ims2" and "config w1 = config w2"
  shows "fst (inception_score m1 bl ims1 bs splits yg1 sg1 w1)
       = fst (inception_score m2 bl ims2 bs splits yg2 sg2 w2)"
  using assms by (intro pure_result_determined) simp_all

theorem result_determined_by_inputs_witness:
  "fst (inception_score (const_model uniform) no_resize 0 2 3 (\<lambda>r c. Fin 0) (\<lambda>i. Fin 0) (start_world 3))
   = fst (inception_score (const_model uniform) no_resize 0 2 3 (\<lambda>r c. NaN) (\<lambda>i. PInf) (start_world 3))"
proof -
  have bs: "(1::int) \<le> 2" by simp
  show ?thesis
    by (rule result_determined_by_inputs[OF const_model_simps(1) const_model_simps(1) bs])
       (simp_all add: start_world_simps)
qed

text \<open>
  With a negative batch size no batch runs and the scores are computed from the
  uninitialised container: two runs that differ only in what that memory holds differ in
  their results.
\<close>

theorem negative_batch_size_counterexample:
  "fst (inception_score (const_model uniform) no_resize 0 (- 1) 1 (\<lambda>r c. Fin 1) (\<lambda>i. Fin 0) (start_world 1))
   \<noteq> fst (inception_score (const_model uniform) no_resize 0 (- 1) 1 (\<lambda>r c. Fin 0) (\<lambda>i. Fin 0) (start_world 1))"
proof -
  have neg: "(- 1 :: int) < 0" by simp
  have ones: "split_score [replicate n_classes (Fin 1)] 1 1 0 = Fin 1"
  proof -
    have "split_part [replicate n_classes (Fin 1)] (int (length [replicate n_classes (Fin 1)])) 1 0
        = [replicate n_classes (Fin 1)]"
      by (rule split_part_whole) simp
    then have "split_score [replicate n_classes (Fin 1)] 1 1 0
        = part_score (replicate (Suc 0) (replicate n_classes (Fin 1)))"
      by (simp add: split_score_def)
    also have "\<dots> = Fin 1" by (rule const_part_score) auto
    finally show ?thesis .
  qed
  have "split_score (replicate (Suc 0) (replicate n_classes (Fin 0))) 1 1 0 = NaN"
    by (rule zero_scores[where c = 0]) (simp_all add: n_classes_not_1)
  then have zeros: "split_score [replicate n_classes (Fin 0)] 1 1 0 = NaN" by simp
  have a: "fst (inception_score (const_model uniform) no_resize 0 (- 1) 1 (\<lambda>r c. Fin 1) (\<lambda>i. Fin 0) (start_world 1))
      = Inr (fmean [Fin 1], fstd [Fin 1])"
    unfolding garbage_run[OF neg] by (simp add: start_world_simps empty2_const aggregate_single ones)
  have b: "fst (inception_score (const_model uniform) no_resize 0 (- 1) 1 (\<lambda>r c. Fin 0) (\<lambda>i. Fin 0) (start_world 1))
      = Inr (fmean [NaN], fstd [NaN])"
    unfolding garbage_run[OF neg] by (simp add: start_world_simps empty2_const aggregate_single zeros)
  have "fmean [Fin 1] = Fin 1" by (simp add: fmean_def fsum_def)
  moreover have "fmean [NaN] = NaN" by (simp add: fmean_NaN)
  ultimately show ?thesis unfolding a b by simp
qed

text \<open>
  C9. When the classifier returns the same row \<open>p\<close> of \<open>n_classes\<close> strictly positive
  numbers for every image, \<open>batch_size \<ge> 1\<close> and \<open>1 \<le> splits \<le> n\<close>: the container is
  \<open>n\<close> times \<open>p\<close>, every split is a positive number of rows \<open>p\<close>, its marginal is
  \<open>p\<close>, the sum over the classes is 0 for each of its rows, its score is 1, and the
  result is \<open>(1, 0)\<close>.
\<close>

theorem constant_classifier_scores_one:
  fixes bs splits :: int
  assumes fw: "forward m = pure_classifier (const_classifier p)"
    and p: "length p = n_classes" "\<forall>x\<in>set p. \<exists>r>0. x = Fin r"
    and kc: "keeps_count bl" and ims: "ims < length (heap wld)"
    and bs: "1 \<le> bs" and sp: "1 \<le> splits" "splits \<le> int (length (imgs (heap wld ! ims)))"
  shows "fst (predictions m bl ims bs yg wld) = Inr (replicate (length (imgs (heap wld ! ims))) p)
       \<and> (\<forall>i\<in>set (py_range splits).
            \<exists>k>0. split_part (replicate (length (imgs (heap wld ! ims))) p)
                      (int (length (imgs (heap wld ! ims)))) splits i = replicate k p
                 \<and> spec_marginal (replicate k p) = p
                 \<and> (\<forall>row\<in>set (replicate k p). spec_kl_row p row = Fin 0)
                 \<and> split_score (replicate (length (imgs (heap wld ! ims))) p)
                      (int (length (imgs (heap wld ! ims)))) splits i = Fin 1)
       \<and> fst (inception_score m bl ims bs splits yg sg wld) = Inr (Fin 1, Fin 0)"
proof -
  let ?n = "length (imgs (heap wld ! ims))"
  have bs0: "0 < bs" using bs by simp
  have run: "fst (predictions m bl ims bs yg wld) = Inr (replicate ?n p)"
    using fw p(1) kc bs0 ims by (rule const_run)
  have each: "\<exists>k>0. split_part (replicate ?n p) (int ?n) splits i = replicate k p
                 \<and> spec_marginal (replicate k p) = p
                 \<and> (\<forall>row\<in>set (replicate k p). spec_kl_row p row = Fin 0)
                 \<and> split_score (replicate ?n p) (int ?n) splits i = Fin 1"
    if i: "i \<in> set (py_range splits)" for i
  proof -
    from const_scores(1)[OF p sp i] obtain k where k: "0 < k"
      "split_part (replicate ?n p) (int ?n) splits i = replicate k p" by blast
    have "spec_marginal (replicate k p) = p" using p k(1) by (rule const_marginal)
    moreover have "\<forall>row\<in>set (replicate k p). spec_kl_row p row = Fin 0"
      using const_kl_row[OF p] by simp
    moreover have "split_score (replicate ?n p) (int ?n) splits i = Fin 1"
      using p sp i by (rule const_scores(2))
    ultimately show ?thesis using k by blast
  qed
  have res: "fst (inception_score m bl ims bs splits yg sg wld) = Inr (Fin 1, Fin 0)"
    using run p sp by (rule one_run)
  show ?thesis using run each res by blast
qed

theorem constant_classifier_scores_one_witness:
  "fst (inception_score (const_model uniform) no_resize 0 25 10
          (\<lambda>r c. Fin 0) (\<lambda>i. Fin 0) (start_world 100)) = Inr (Fin 1, Fin 0)"
proof -
  have bs: "(1::int) \<le> 25" and sp: "(1::int) \<le> 10" by simp_all
  have ims: "0 < length (heap (start_world 100))" by (simp add: start_world_simps)
  have le: "(10::int) \<le> int (length (imgs (heap (start_world 100) ! 0)))"
    by (simp add: start_world_simps)
  from constant_classifier_scores_one[OF const_model_simps(1) uniform_simps keeps_count_no_resize
      ims bs sp le, of "\<lambda>r c. Fin 0" "\<lambda>i. Fin 0"]
  show ?thesis by blast
qed

text \<open>
  With 100 images, a batch size of 25, 10 splits and a classifier that returns the same
  one-hot row for every image, the result is \<^verbatim>\<open>(nan, nan)\<close>: a zero entry gives
  \<^verbatim>\<open>0 * (log 0 - log 0)\<close>.
\<close>

theorem one_hot_counterexample:
  "fst (inception_score (const_model one_hot) no_resize 0 25 10
          (\<lambda>r c. Fin 0) (\<lambda>i. Fin 0) (start_world 100)) = Inr (NaN, NaN)"
proof (rule zero_run[OF const_model_simps(1) one_hot_simps(1) _ one_hot_simps(2) keeps_count_no_resize])
  show "1 < n_classes" by (rule n_classes_not_1(3))
  show "(0::int) < 25" by simp
  show "0 < length (heap (start_world 100))" by (simp add: start_world_simps)
  show "(0::int) \<le> 10" by simp
qed

text \<open>
  C10. The container has \<open>n\<close> rows of \<open>n_classes = 1008\<close> numbers whatever the
  classifier is. Assigning an output with at least one row and rows of a width other than
  1008 and other than 1 raises \<^verbatim>\<open>ValueError\<close>, and so does
  \<^verbatim>\<open>inception_score\<close> with a classifier that returns such outputs (\<open>n \<ge> 1\<close>,
  \<open>batch_size \<ge> 1\<close>); an output of \<open>k\<close> rows of width 1 is assigned to a slice of
  \<open>k\<close> rows without an error, each number repeated over the 1008 columns.
\<close>

theorem container_width_fixed:
  fixes bs :: int
  assumes fw: "forward m = pure_classifier f"
    and f: "\<forall>cfg a. imgs a \<noteq> [] \<longrightarrow>
              (\<exists>y. f cfg a = Inr y \<and> y \<noteq> [] \<and> list_all (\<lambda>row. length row = c) y)"
    and c: "c \<noteq> 1" "c \<noteq> n_classes"
    and kc: "keeps_count bl" and bs: "1 \<le> bs" and ims: "ims < length (heap wld)"
    and n: "1 \<le> length (imgs (heap wld ! ims))"
  shows "n_classes = 1008
       \<and> length (empty2 yg (length (imgs (heap wld ! ims))) n_classes) = length (imgs (heap wld ! ims))
       \<and> (\<forall>row\<in>set (empty2 yg (length (imgs (heap wld ! ims))) n_classes). length row = 1008)
       \<and> (\<forall>ys a b y. y \<noteq> [] \<and> list_all (\<lambda>row. length row = c) y
             \<longrightarrow> setitem_rows n_classes ys a b y = Inl ValueError)
       \<and> (\<forall>ys a b l k x. slice_bounds (length ys) a b = (l, l + k)
             \<longrightarrow> setitem_rows n_classes ys a b (replicate k [x])
                 = Inr (take l ys @ replicate k (replicate n_classes x) @ drop (l + k) ys))
       \<and> fst (inception_score m bl ims bs splits yg sg wld) = Inl ValueError"
proof -
  have bs0: "0 < bs" using bs by simp
  have n0: "0 < length (imgs (heap wld ! ims))" using n by linarith
  have f': "\<exists>y. f cfg a = Inr y \<and> y \<noteq> [] \<and> list_all (\<lambda>row. length row = c) y"
    if "imgs a \<noteq> []" for cfg a
    using f that by blast
  have res: "fst (inception_score m bl ims bs splits yg sg wld) = Inl ValueError"
    using fw f' c kc bs0 ims n0 by (rule wrong_width_run)
  have shape: "\<forall>row\<in>set (empty2 yg (length (imgs (heap wld ! ims))) n_classes). length row = 1008"
    using empty2_shape(2)[of yg _ n_classes] by (simp add: n_classes_def)
  have wrong: "\<forall>ys a b y. y \<noteq> [] \<and> list_all (\<lambda>row. length row = c) y
             \<longrightarrow> setitem_rows n_classes ys a b y = Inl ValueError"
    using setitem_wrong_width[OF _ _ c] by blast
  have col: "\<forall>ys a b l k x. slice_bounds (length ys) a b = (l, l + k)
             \<longrightarrow> setitem_rows n_classes ys a b (replicate k [x])
                 = Inr (take l ys @ replicate k (replicate n_classes x) @ drop (l + k) ys)"
    using setitem_column by blast
  show ?thesis
  proof (intro conjI)
    show "n_classes = 1008" by (rule n_classes_def)
    show "length (empty2 yg (length (imgs (heap wld ! ims))) n_classes) = length (imgs (heap wld ! ims))"
      by (rule empty2_shape(1))
    show "\<forall>row\<in>set (empty2 yg (length (imgs (heap wld ! ims))) n_classes). length row = 1008"
      by (rule shape)
    show "\<forall>ys a b y. y \<noteq> [] \<and> list_all (\<lambda>row. length row = c) y
             \<longrightarrow> setitem_rows n_classes ys a b y = Inl ValueError"
      by (rule wrong)
    show "\<forall>ys a b l k x. slice_bounds (length ys) a b = (l, l + k)
             \<longrightarrow> setitem_rows n_classes ys a b (replicate k [x])
                 = Inr (take l ys @ replicate k (replicate n_classes x) @ drop (l + k) ys)"
      by (rule col)
    show "fst (inception_score m bl ims bs splits yg sg wld) = Inl ValueError" by (rule res)
  qed
qed

theorem container_width_fixed_witness:
  "fst (inception_score (const_model [Fin 1, Fin 0]) no_resize 0 25 10
          (\<lambda>r c. Fin 0) (\<lambda>i. Fin 0) (start_world 3)) = Inl ValueError"
proof -
  have f: "\<forall>cfg a. imgs a \<noteq> [] \<longrightarrow>
      (\<exists>y. const_classifier [Fin 1, Fin 0] cfg a = Inr y \<and> y \<noteq> []
           \<and> list_all (\<lambda>row. length row = 2) y)"
    by (simp add: const_classifier_def list_all_iff)
  have c: "(2::nat) \<noteq> 1" "2 \<noteq> n_classes" by (simp_all add: n_classes_def)
  have bs: "(1::int) \<le> 25" by simp
  have ims: "0 < length (heap (start_world 3))" by (simp add: start_world_simps)
  have n: "1 \<le> length (imgs (heap (start_world 3) ! 0))" by (simp add: start_world_simps)
  from container_width_fixed[OF const_model_simps(1) f c keeps_count_no_resize bs ims n,
      of "\<lambda>r c. Fin 0" 10 "\<lambda>i. Fin 0"]
  show ?thesis by blast
qed

text \<open>
  A classifier that returns one number for every image: the assignment broadcasts it and
  \<^verbatim>\<open>inception_score\<close> returns a pair.
\<close>

theorem width_one_counterexample:
  "fst (inception_score (const_model [Fin 1]) no_resize 0 25 1
          (\<lambda>r c. Fin 0) (\<lambda>i. Fin 0) (start_world 3)) = Inr (Fin 1, Fin 0)"
proof (rule one_run)
  show "fst (predictions (const_model [Fin 1]) no_resize 0 25 (\<lambda>r c. Fin 0) (start_world 3))
      = Inr (replicate (length (imgs (heap (start_world 3) ! 0))) (replicate n_classes (Fin 1)))"
    by (rule column_run[OF const_model_simps(1) keeps_count_no_resize])
       (simp_all add: start_world_simps)
  show "length (replicate n_classes (Fin 1)) = n_classes" by simp
  show "\<forall>x\<in>set (replicate n_classes (Fin 1)). \<exists>r>0. x = Fin r" by auto
  show "(1::int) \<le> 1" by simp
  show "1 \<le> int (length (imgs (heap (start_world 3) ! 0)))" by (simp add: start_world_simps)
qed

end
